theory Spec2Isabelle
  imports Main
begin

section \<open>Characters and C strings\<close>

text \<open>
  A C string is modelled by the list of the bytes that precede its terminating NUL, and a
  cursor \<open>const char *p\<close> into a buffer by the part of the buffer that is still ahead of
  it: reading \<open>*p\<close> at the empty list is reading the terminator, \<open>p++\<close> is \<open>tl\<close>.
  \<open>xstrdup\<close> copies up to the first NUL, which is \<open>c_str\<close>.
  The character classes are those of the "C" locale (the program never calls setlocale).
\<close>

definition c_str :: "string \<Rightarrow> string" where
  "c_str s = takeWhile (\<lambda>c. c \<noteq> CHR 0x00) s"

definition isspace :: "char \<Rightarrow> bool" where
  "isspace c = (c = CHR '' '' \<or> c = CHR 0x09 \<or> c = CHR 0x0A \<or> c = CHR 0x0B
                \<or> c = CHR 0x0C \<or> c = CHR 0x0D)"

definition isdigit :: "char \<Rightarrow> bool" where
  "isdigit c = (48 \<le> (of_char c :: nat) \<and> (of_char c :: nat) \<le> 57)"

definition isalnum :: "char \<Rightarrow> bool" where
  "isalnum c = (isdigit c \<or> (65 \<le> (of_char c :: nat) \<and> (of_char c :: nat) \<le> 90)
                \<or> (97 \<le> (of_char c :: nat) \<and> (of_char c :: nat) \<le> 122))"

section \<open>The Lut structure and its input nets\<close>

text \<open>
  \<open>net_count\<close> is the length of \<open>nets\<close>; \<open>net_cap\<close> only books the allocation and is
  left out.
\<close>

record Lut =
  inst :: string
  nets :: "string list"
  used :: bool

text \<open>
  The search loop of \<open>lut_add_net_unique\<close>: \<open>strncmp(l->nets[i], net, len) == 0\<close> compares
  the first \<open>len\<close> bytes, and \<open>l->nets[i][len] == 0\<close> says that the stored net ends there.
\<close>

fun net_exists :: "string list \<Rightarrow> string \<Rightarrow> nat \<Rightarrow> bool" where
  "net_exists [] net len = False"
| "net_exists (s # ss) net len =
     (if take len s = take len net \<and> length s = len then True else net_exists ss net len)"

definition lut_add_net_unique :: "Lut \<Rightarrow> string \<Rightarrow> Lut" where
  "lut_add_net_unique l net0 =
     (let net = dropWhile isspace net0 in
      if net = [] then l
      else
        let len = length net - length (takeWhile isspace (rev net)) in
        if len = 0 then l
        else if net_exists (nets l) net len then l
        else l\<lparr>nets := nets l @ [take len net]\<rparr>)"

section \<open>Lexical helpers\<close>

fun digits_only :: "string \<Rightarrow> bool" where
  "digits_only [] = True"
| "digits_only (c # cs) = (if \<not> isdigit c then False else digits_only cs)"

definition is_gtp_lut_cell :: "string \<Rightarrow> bool" where
  "is_gtp_lut_cell cell =
     (if cell = ''GTP_LUT6CARRY'' then False
      else if take 7 cell \<noteq> ''GTP_LUT'' then False
      else
        let p = drop 7 cell in
        (case p of
           [] \<Rightarrow> False
         | c # cs \<Rightarrow> if \<not> isdigit c then False else digits_only p))"

definition is_ident_char :: "char \<Rightarrow> bool" where
  "is_ident_char c = (isalnum c \<or> c = CHR ''_'' \<or> c = CHR ''$'')"

definition skip_spaces :: "string \<Rightarrow> string" where
  "skip_spaces p = dropWhile isspace p"

text \<open>
  \<open>parse_identifier\<close> returns the token and the cursor behind it, or \<open>None\<close> for the
  NULL result, in which case the caller's cursor is left where it was.
\<close>

definition parse_identifier :: "string \<Rightarrow> (string \<times> string) option" where
  "parse_identifier p0 =
     (case skip_spaces p0 of
        [] \<Rightarrow> None
      | c # cs \<Rightarrow>
          if c = CHR 0x5C then
            Some (c # takeWhile (\<lambda>x. \<not> isspace x) cs, dropWhile (\<lambda>x. \<not> isspace x) cs)
          else if \<not> is_ident_char c then None
          else Some (takeWhile is_ident_char (c # cs), dropWhile is_ident_char (c # cs)))"

section \<open>Comment stripping\<close>

function strip_line_comments :: "string \<Rightarrow> string" where
  "strip_line_comments [] = []"
| "strip_line_comments (c # cs) =
     (if c = CHR ''/'' \<and> cs \<noteq> [] \<and> hd cs = CHR ''/'' then
        replicate (length (takeWhile (\<lambda>x. x \<noteq> CHR 0x0A) (c # cs))) CHR '' ''
          @ strip_line_comments (dropWhile (\<lambda>x. x \<noteq> CHR 0x0A) (c # cs))
      else c # strip_line_comments cs)"
  by pat_completeness auto
termination
proof (relation "measure length")
  show "wf (measure length)" by simp
next
  fix c :: char and cs :: string
  assume "c = CHR ''/'' \<and> cs \<noteq> [] \<and> hd cs = CHR ''/''"
  then have "dropWhile (\<lambda>x. x \<noteq> CHR 0x0A) (c # cs) = dropWhile (\<lambda>x. x \<noteq> CHR 0x0A) cs"
    by simp
  then have "length (dropWhile (\<lambda>x. x \<noteq> CHR 0x0A) (c # cs)) \<le> length cs"
    by (simp add: length_dropWhile_le)
  then show "(dropWhile (\<lambda>x. x \<noteq> CHR 0x0A) (c # cs), c # cs) \<in> measure length"
    by simp
next
  fix c :: char and cs :: string
  show "(cs, c # cs) \<in> measure length" by simp
qed

text \<open>
  The inner loop of \<open>strip_block_comments\<close>, entered behind the two bytes of the opening
  marker: the blanks written, and the cursor at which the outer loop goes on.
\<close>

fun block_body :: "string \<Rightarrow> string \<times> string" where
  "block_body [] = ([], [])"
| "block_body (c # cs) =
     (if c = CHR ''*'' \<and> cs \<noteq> [] \<and> hd cs = CHR ''/'' then ('' '' @ '' '', tl cs)
      else (case block_body cs of (b, r) \<Rightarrow> (CHR '' '' # b, r)))"

lemma block_body_length: "length (snd (block_body p)) \<le> length p"
  by (induction p) (auto split: prod.splits)

function strip_block_comments :: "string \<Rightarrow> string" where
  "strip_block_comments [] = []"
| "strip_block_comments (c # cs) =
     (if c = CHR ''/'' \<and> cs \<noteq> [] \<and> hd cs = CHR ''*'' then
        (case block_body (tl cs) of
           (b, r) \<Rightarrow> '' '' @ '' '' @ b @ strip_block_comments r)
      else c # strip_block_comments cs)"
  by pat_completeness auto
termination
proof (relation "measure length")
  show "wf (measure length)" by simp
next
  fix c :: char and cs x y
  assume a: "c = CHR ''/'' \<and> cs \<noteq> [] \<and> hd cs = CHR ''*''" and b: "(x, y) = block_body (tl cs)"
  have "length (snd (block_body (tl cs))) \<le> length (tl cs)" by (rule block_body_length)
  with b have "length y \<le> length (tl cs)" by (metis snd_conv)
  then show "(y, c # cs) \<in> measure length" by simp
next
  fix c :: char and cs :: string
  show "(cs, c # cs) \<in> measure length" by simp
qed

section \<open>Instance extraction\<close>

text \<open>
  The test of lines 270 to 277 that sets the flag \<open>record\<close>: the port name starts with
  \<open>I\<close>, everything behind it is a digit, and there is something behind it.
\<close>

definition record_flag :: "string \<Rightarrow> bool" where
  "record_flag port =
     (case port of
        [] \<Rightarrow> False
      | c # cs \<Rightarrow> if c = CHR ''I'' then digits_only cs \<and> cs \<noteq> [] else False)"

text \<open>
  Stepping the cursor beyond the terminating NUL and reading there is undefined in C, and
  so is \<open>depth++\<close> at the largest \<open>int\<close>, taken to have 32 bits; the model makes each
  a result of its own.
\<close>

datatype error = Buffer_overread | Depth_overflow

lemma skip_spaces_length: "length (skip_spaces p) \<le> length p"
  by (simp add: skip_spaces_def length_dropWhile_le)

lemma parse_identifier_length:
  assumes "parse_identifier p = Some (tok, r)"
  shows "length r < length p"
proof -
  obtain c cs where s: "skip_spaces p = c # cs"
    using assms by (auto simp: parse_identifier_def split: list.splits)
  have l: "length (c # cs) \<le> length p"
    using skip_spaces_length [of p] s by simp
  show ?thesis
  proof (cases "c = CHR 0x5C")
    case True
    then have "r = dropWhile (\<lambda>x. \<not> isspace x) cs"
      using assms s by (simp add: parse_identifier_def)
    then have "length r \<le> length cs" by (simp add: length_dropWhile_le)
    with l show ?thesis by simp
  next
    case False
    then have i: "is_ident_char c" and "r = dropWhile is_ident_char (c # cs)"
      using assms s by (auto simp: parse_identifier_def split: if_splits)
    then have "r = dropWhile is_ident_char cs" by simp
    then have "length r \<le> length cs" by (simp add: length_dropWhile_le)
    with l show ?thesis by simp
  qed
qed

text \<open>
  One pass through the body of the port loop of \<open>parse_luts_from_buffer\<close> (lines 240 to
  288), entered with \<open>*p\<close> not the terminator. The result says whether the pass leaves the
  loop by \<open>break\<close>, and gives the cursor, the depth and the Lut behind the pass. When only
  white space is left, \<open>*p\<close> is the terminator, which is none of the three characters
  tested, so \<open>p++\<close> leaves the buffer. An opening parenthesis at the largest depth that
  an \<open>int\<close> holds overflows the counter.
\<close>

definition port_step :: "string \<Rightarrow> int \<Rightarrow> Lut \<Rightarrow> error + (bool \<times> string \<times> int \<times> Lut)" where
  "port_step p depth lut =
     (case skip_spaces p of
        [] \<Rightarrow> Inl Buffer_overread
      | c # cs \<Rightarrow>
          if c = CHR '')'' then Inr (True, cs, depth - 1, lut)
          else if c = CHR ''('' then
            (if depth = 2147483647 then Inl Depth_overflow
             else Inr (False, cs, depth + 1, lut))
          else if c \<noteq> CHR ''.'' then Inr (False, cs, depth, lut)
          else
            (case parse_identifier cs of
               None \<Rightarrow> Inr (False, cs, depth, lut)
             | Some (port, p2) \<Rightarrow>
                 (case skip_spaces p2 of
                    [] \<Rightarrow> Inr (False, [], depth, lut)
                  | c3 # p4 \<Rightarrow>
                      if c3 \<noteq> CHR ''('' then Inr (False, c3 # p4, depth, lut)
                      else
                        let net = takeWhile (\<lambda>x. x \<noteq> CHR '')'') p4;
                            p5 = dropWhile (\<lambda>x. x \<noteq> CHR '')'') p4;
                            p6 = (case p5 of [] \<Rightarrow> [] | c5 # cs5 \<Rightarrow>
                                    if c5 = CHR '')'' then cs5 else c5 # cs5)
                        in Inr (False, p6, depth,
                                if record_flag port then lut_add_net_unique lut net else lut))))"

lemma port_step_length:
  assumes "port_step p depth lut = Inr (brk, p', depth', lut')"
  shows "length p' < length p"
proof -
  obtain c cs where s: "skip_spaces p = c # cs"
    using assms by (auto simp: port_step_def split: list.splits)
  have lcs: "length cs < length p"
    using skip_spaces_length [of p] s by simp
  show ?thesis
  proof (cases "c = CHR ''.''")
    case False
    then have "p' = cs"
      using assms s by (auto simp: port_step_def split: if_splits)
    then show ?thesis using lcs by simp
  next
    case True
    note dot = True
    show ?thesis
    proof (cases "parse_identifier cs")
      case None
      then have "p' = cs"
        using assms s dot by (simp add: port_step_def)
      then show ?thesis using lcs by simp
    next
      case (Some x2)
      obtain port p2 where x2: "x2 = (port, p2)" by (cases x2)
      have lp2: "length p2 < length cs"
        using parse_identifier_length [of cs port p2] Some x2 by simp
      show ?thesis
      proof (cases "skip_spaces p2")
        case Nil
        then have "p' = []"
          using assms s dot Some x2 by (simp add: port_step_def)
        then show ?thesis using lcs by (cases p) simp_all
      next
        case (Cons c3 p4)
        have l34: "length (c3 # p4) \<le> length p2"
          using skip_spaces_length [of p2] Cons by simp
        define p5 where "p5 = dropWhile (\<lambda>x. x \<noteq> CHR '')'') p4"
        define p6 where "p6 = (case p5 of [] \<Rightarrow> [] | c5 # cs5 \<Rightarrow>
                                 if c5 = CHR '')'' then cs5 else c5 # cs5)"
        have "length p5 \<le> length p4"
          by (simp add: p5_def length_dropWhile_le)
        moreover have "length p6 \<le> length p5"
          by (simp add: p6_def split: list.splits)
        moreover have "p' = c3 # p4 \<or> p' = p6"
          using assms s dot Some x2 Cons
          by (auto simp: port_step_def Let_def p5_def p6_def split: if_splits)
        ultimately show ?thesis using lcs lp2 l34 by auto
      qed
    qed
  qed
qed

function port_loop :: "string \<Rightarrow> int \<Rightarrow> Lut \<Rightarrow> error + (string \<times> int \<times> Lut)" where
  "port_loop p depth lut =
     (if p \<noteq> [] \<and> depth > 0 then
        (case port_step p depth lut of
           Inl e \<Rightarrow> Inl e
         | Inr (brk, p', depth', lut') \<Rightarrow>
             if brk then Inr (p', depth', lut') else port_loop p' depth' lut')
      else Inr (p, depth, lut))"
  by pat_completeness auto
termination
proof (relation "measure (\<lambda>(p, depth, lut). length p)")
  show "wf (measure (\<lambda>(p, depth, lut). length p))" by simp
next
  fix p :: string and depth :: int and lut :: Lut and r brk x p' y depth' lut'
  assume "port_step p depth lut = Inr r" "(brk, x) = r" "(p', y) = x" "(depth', lut') = y"
  then have "port_step p depth lut = Inr (brk, p', depth', lut')" by simp
  then have "length p' < length p" by (rule port_step_length)
  then show "((p', depth', lut'), p, depth, lut) \<in> measure (\<lambda>(p, depth, lut). length p)"
    by simp
qed

declare port_loop.simps [simp del]

text \<open>
  Lines 292 and 293, behind the port loop: the cursor goes to the next semicolon or line
  feed, and over the semicolon if that is what it found.
\<close>

definition resync :: "string \<Rightarrow> string" where
  "resync p4 =
     (let p5 = dropWhile (\<lambda>x. x \<noteq> CHR '';'' \<and> x \<noteq> CHR 0x0A) p4
      in case p5 of [] \<Rightarrow> [] | c5 # cs5 \<Rightarrow> if c5 = CHR '';'' then cs5 else c5 # cs5)"

lemma resync_length: "length (resync p) \<le> length p"
proof -
  define p5 where "p5 = dropWhile (\<lambda>x. x \<noteq> CHR '';'' \<and> x \<noteq> CHR 0x0A) p"
  have "length p5 \<le> length p"
    unfolding p5_def by (rule length_dropWhile_le)
  moreover have "resync p = (case p5 of [] \<Rightarrow> [] | c5 # cs5 \<Rightarrow>
      if c5 = CHR '';'' then cs5 else c5 # cs5)"
    by (simp add: resync_def p5_def)
  ultimately show ?thesis by (cases p5) simp_all
qed

text \<open>
  One pass through the body of the outer loop of \<open>parse_luts_from_buffer\<close> (lines 205 to
  303), entered with \<open>*p\<close> not the terminator: the cursor at which the next pass starts,
  and the Lut stored by this pass, if it stores one.
\<close>

definition scan_step :: "string \<Rightarrow> error + (string \<times> Lut option)" where
  "scan_step p =
     (case parse_identifier p of
        None \<Rightarrow> Inr (tl p, None)
      | Some (cell, p1) \<Rightarrow>
          if \<not> is_gtp_lut_cell cell then Inr (p1, None)
          else
            (case parse_identifier p1 of
               None \<Rightarrow> Inr (p1, None)
             | Some (name, p2) \<Rightarrow>
                 (case skip_spaces p2 of
                    [] \<Rightarrow> Inr ([], None)
                  | c # p3 \<Rightarrow>
                      if c \<noteq> CHR ''('' then Inr (c # p3, None)
                      else
                        (case port_loop p3 1 \<lparr>inst = name, nets = [], used = False\<rparr> of
                           Inl e \<Rightarrow> Inl e
                         | Inr (p4, depth, lut) \<Rightarrow> Inr (resync p4, Some lut)))))"

text \<open>
  Whatever holds of the Lut on entry of the port loop and is kept by every insertion of
  a net holds at its exit, and the cursor has not moved back.
\<close>

lemma port_step_keeps:
  assumes "port_step p depth lut = Inr (brk, p', depth', lut')"
    and "P lut" and "\<And>l net. P l \<Longrightarrow> P (lut_add_net_unique l net)"
  shows "P lut'"
proof -
  have "lut' = lut \<or> (\<exists>net. lut' = lut_add_net_unique lut net)"
    using assms(1)
    by (auto simp: port_step_def Let_def split: list.splits if_splits option.splits)
  then show ?thesis using assms(2,3) by auto
qed

lemma port_loop_keeps:
  assumes "port_loop p depth lut = Inr (p', depth', lut')"
    and "P lut" and "\<And>l net. P l \<Longrightarrow> P (lut_add_net_unique l net)"
  shows "P lut' \<and> length p' \<le> length p"
  using assms(1,2)
proof (induction p depth lut rule: port_loop.induct)
  case (1 p depth lut)
  show ?case
  proof (cases "p \<noteq> [] \<and> depth > 0")
    case False
    then have "port_loop p depth lut = Inr (p, depth, lut)"
      by (subst port_loop.simps) (simp only: if_False)
    then show ?thesis using "1.prems" by simp
  next
    case True
    then have u: "port_loop p depth lut =
        (case port_step p depth lut of
           Inl e \<Rightarrow> Inl e
         | Inr (brk, p', depth', lut') \<Rightarrow>
             if brk then Inr (p', depth', lut') else port_loop p' depth' lut')"
      by (subst port_loop.simps) simp
    then obtain brk p1 d1 l1 where st: "port_step p depth lut = Inr (brk, p1, d1, l1)"
      using "1.prems"(1) by (cases "port_step p depth lut") auto
    have l: "length p1 < length p" using st by (rule port_step_length)
    have k: "P l1" using st "1.prems"(2) assms(3) by (rule port_step_keeps)
    show ?thesis
    proof (cases brk)
      case True
      then show ?thesis using u st "1.prems"(1) l k by simp
    next
      case False
      then have "port_loop p1 d1 l1 = Inr (p', depth', lut')"
        using u st "1.prems"(1) by simp
      then have "P lut' \<and> length p' \<le> length p1"
        using "1.IH" [OF True st refl refl refl False] k by simp
      then show ?thesis using l by simp
    qed
  qed
qed

lemma scan_step_length:
  assumes "scan_step p = Inr (p', r)" and "p \<noteq> []"
  shows "length p' < length p"
proof (cases "parse_identifier p")
  case None
  then have "p' = tl p" using assms(1) by (simp add: scan_step_def)
  then show ?thesis using assms(2) by simp
next
  case (Some x)
  obtain cell p1 where x: "x = (cell, p1)" by (cases x)
  have l1: "length p1 < length p"
    using parse_identifier_length [of p cell p1] Some x by simp
  show ?thesis
  proof (cases "is_gtp_lut_cell cell \<and> parse_identifier p1 \<noteq> None")
    case False
    then have "p' = p1"
      using assms(1) Some x
      by (cases "parse_identifier p1") (auto simp: scan_step_def split: if_splits)
    then show ?thesis using l1 by simp
  next
    case True
    then obtain name p2 where n: "parse_identifier p1 = Some (name, p2)" by auto
    have l2: "length p2 < length p1" using n by (rule parse_identifier_length)
    show ?thesis
    proof (cases "skip_spaces p2")
      case Nil
      then have "p' = []"
        using assms(1) Some x True n by (simp add: scan_step_def)
      then show ?thesis using assms(2) by (cases p) simp_all
    next
      case (Cons c p3)
      have l3: "length (c # p3) \<le> length p2"
        using skip_spaces_length [of p2] Cons by simp
      show ?thesis
      proof (cases "c = CHR ''(''")
        case False
        then have "p' = c # p3"
          using assms(1) Some x True n Cons by (simp add: scan_step_def)
        then show ?thesis using l1 l2 l3 by simp
      next
        case True
        note paren = True
        obtain p4 depth lut where
          pl: "port_loop p3 1 \<lparr>inst = name, nets = [], used = False\<rparr> = Inr (p4, depth, lut)"
          using assms(1) Some x \<open>is_gtp_lut_cell cell \<and> parse_identifier p1 \<noteq> None\<close> n Cons paren
          by (auto simp: scan_step_def split: sum.splits)
        have l4: "length p4 \<le> length p3"
          using port_loop_keeps [OF pl, of "\<lambda>l. True"] by simp
        have l5: "length (resync p4) \<le> length p4" by (rule resync_length)
        have "p' = resync p4"
          using assms(1) Some x \<open>is_gtp_lut_cell cell \<and> parse_identifier p1 \<noteq> None\<close> n Cons paren pl
          by (simp add: scan_step_def)
        then show ?thesis using l1 l2 l3 l4 l5 by simp
      qed
    qed
  qed
qed

text \<open>
  The outer loop (line 204), and \<open>parse_luts_from_buffer\<close> itself: a private copy of the
  text, block comments blanked, then line comments, then the scan.
\<close>

function parse_loop :: "string \<Rightarrow> Lut list \<Rightarrow> error + Lut list" where
  "parse_loop p luts =
     (if p \<noteq> [] then
        (case scan_step p of
           Inl e \<Rightarrow> Inl e
         | Inr (p', None) \<Rightarrow> parse_loop p' luts
         | Inr (p', Some lut) \<Rightarrow> parse_loop p' (luts @ [lut]))
      else Inr luts)"
  by pat_completeness auto
termination
proof (relation "measure (\<lambda>(p, luts). length p)")
  show "wf (measure (\<lambda>(p, luts). length p))" by simp
next
  fix p :: string and luts :: "Lut list" and r p' y
  assume "p \<noteq> []" "scan_step p = Inr r" "(p', y) = r"
  then have "length p' < length p"
    using scan_step_length [of p p' y] by simp
  then show "((p', luts), p, luts) \<in> measure (\<lambda>(p, luts). length p)" by simp
next
  fix p :: string and luts :: "Lut list" and r p' y lut
  assume "p \<noteq> []" "scan_step p = Inr r" "(p', y) = r"
  then have "length p' < length p"
    using scan_step_length [of p p' y] by simp
  then show "((p', luts @ [lut]), p, luts) \<in> measure (\<lambda>(p, luts). length p)" by simp
qed

declare parse_loop.simps [simp del]

definition parse_luts_from_buffer :: "string \<Rightarrow> error + Lut list" where
  "parse_luts_from_buffer buf_in =
     parse_loop (strip_line_comments (strip_block_comments (c_str buf_in))) []"

section \<open>Pairing\<close>

text \<open>
  \<open>union_unique_count_le6\<close>: the loop over the nets of \<open>b\<close>, with the running count;
  \<open>strcmp\<close> returning 0 is equality of the two strings.
\<close>

fun union_count :: "string list \<Rightarrow> string list \<Rightarrow> int \<Rightarrow> bool" where
  "union_count a [] count = (count \<le> 6)"
| "union_count a (n # ns) count =
     (if n \<in> set a then union_count a ns count
      else if count + 1 > 6 then False
      else union_count a ns (count + 1))"

definition union_unique_count_le6 :: "Lut \<Rightarrow> Lut \<Rightarrow> bool" where
  "union_unique_count_le6 a b = union_count (nets a) (nets b) (int (length (nets a)))"

text \<open>
  The greedy pairing of \<open>run_one\<close> (lines 384 to 398). \<open>find_best\<close> is the inner loop
  over \<open>j\<close>, with \<open>None\<close> for \<open>best == -1\<close>; \<open>pair_step\<close> is one pass through the body
  of the outer loop; the arrays \<open>pair_a\<close> and \<open>pair_b\<close> are one list of index pairs.
\<close>

function find_best :: "Lut list \<Rightarrow> nat \<Rightarrow> nat \<Rightarrow> nat \<Rightarrow> nat option" where
  "find_best luts n i j =
     (if j < n then
        (if used (luts ! j) then find_best luts n i (j + 1)
         else if union_unique_count_le6 (luts ! i) (luts ! j) then Some j
         else find_best luts n i (j + 1))
      else None)"
  by pat_completeness auto
termination
  by (relation "measure (\<lambda>(luts, n, i, j). n - j)") auto

declare find_best.simps [simp del]

definition pair_step ::
  "nat \<Rightarrow> Lut list \<Rightarrow> (nat \<times> nat) list \<Rightarrow> nat \<Rightarrow> Lut list \<times> (nat \<times> nat) list" where
  "pair_step n luts pairs i =
     (if used (luts ! i) then (luts, pairs)
      else
        (case find_best luts n i (i + 1) of
           None \<Rightarrow> (luts, pairs)
         | Some best \<Rightarrow>
             let luts1 = luts[i := (luts ! i)\<lparr>used := True\<rparr>];
                 luts2 = luts1[best := (luts1 ! best)\<lparr>used := True\<rparr>]
             in (luts2, pairs @ [(i, best)])))"

function pair_loop ::
  "nat \<Rightarrow> Lut list \<Rightarrow> (nat \<times> nat) list \<Rightarrow> nat \<Rightarrow> Lut list \<times> (nat \<times> nat) list" where
  "pair_loop n luts pairs i =
     (if i < n then
        (case pair_step n luts pairs i of (luts', pairs') \<Rightarrow> pair_loop n luts' pairs' (i + 1))
      else (luts, pairs))"
  by pat_completeness auto
termination
  by (relation "measure (\<lambda>(n, luts, pairs, i). n - i)") auto

declare pair_loop.simps [simp del]

definition pair_luts :: "Lut list \<Rightarrow> Lut list \<times> (nat \<times> nat) list" where
  "pair_luts luts = pair_loop (length luts) luts [] 0"

section \<open>The report\<close>

text \<open>
  What \<open>run_one\<close> writes to the result file: \<open>fprintf\<close> with \<open>%d\<close> for the number of
  pairs, which is not negative, then one line for each pair. Reading and writing the files,
  the summary line on the standard output and the end of the process when an allocation
  fails are left out.
\<close>

fun print_dec :: "nat \<Rightarrow> string" where
  "print_dec n =
     (if n < 10 then [char_of (48 + n)]
      else print_dec (n div 10) @ [char_of (48 + n mod 10)])"

declare print_dec.simps [simp del]

definition report :: "Lut list \<Rightarrow> (nat \<times> nat) list \<Rightarrow> string" where
  "report luts pairs =
     print_dec (length pairs) @ [CHR 0x0A]
       @ concat (map (\<lambda>(a, b). inst (luts ! a) @ '' '' @ inst (luts ! b) @ [CHR 0x0A]) pairs)"

definition run_one :: "string \<Rightarrow> error + string" where
  "run_one buf =
     (case parse_luts_from_buffer buf of
        Inl e \<Rightarrow> Inl e
      | Inr luts \<Rightarrow> (case pair_luts luts of (luts', pairs) \<Rightarrow> Inr (report luts' pairs)))"

section \<open>Notions of the specification\<close>

text \<open>
  These definitions follow the words of the specification, not the code; the theorems
  below compare the code with them. \<open>trim\<close> removes the white space around a string;
  \<open>input_port\<close> is the port filter: length at least 2, first character \<open>I\<close>, all remaining
  characters decimal digits.
\<close>

definition trim :: "string \<Rightarrow> string" where
  "trim s = rev (dropWhile isspace (rev (dropWhile isspace s)))"

definition input_port :: "string \<Rightarrow> bool" where
  "input_port port \<longleftrightarrow>
     2 \<le> length port \<and> hd port = CHR ''I''
       \<and> list_all (\<lambda>c. c \<in> set ''0123456789'') (tl port)"

text \<open>
  For the pairing: the instances that occur in a list of pairs; those that are consumed
  when the outer loop arrives at \<open>i\<close> (the members of the pairs whose first element lies
  before \<open>i\<close>); the candidates of \<open>i\<close>, which lie behind \<open>i\<close>, are not consumed when the
  loop arrives at \<open>i\<close> and satisfy the union-size predicate with \<open>i\<close>; and the first of
  the candidates.
\<close>

definition pair_members :: "(nat \<times> nat) list \<Rightarrow> nat list" where
  "pair_members ps = concat (map (\<lambda>(a, b). [a, b]) ps)"

definition consumed_before :: "(nat \<times> nat) list \<Rightarrow> nat \<Rightarrow> nat list" where
  "consumed_before ps i = pair_members (filter (\<lambda>(a, b). a < i) ps)"

definition candidate :: "Lut list \<Rightarrow> (nat \<times> nat) list \<Rightarrow> nat \<Rightarrow> nat \<Rightarrow> bool" where
  "candidate luts ps i j \<longleftrightarrow>
     i < j \<and> j < length luts \<and> j \<notin> set (consumed_before ps i)
       \<and> union_unique_count_le6 (luts ! i) (luts ! j)"

definition first_candidate :: "Lut list \<Rightarrow> (nat \<times> nat) list \<Rightarrow> nat \<Rightarrow> nat \<Rightarrow> bool" where
  "first_candidate luts ps i j \<longleftrightarrow>
     candidate luts ps i j \<and> (\<forall>k<j. \<not> candidate luts ps i k)"

text \<open>
  The invariant of the outer loop of the pairing when it arrives at \<open>i\<close>, for the
  instances \<open>luts0\<close> that the pairing started from.
\<close>

definition pair_inv :: "Lut list \<Rightarrow> nat \<Rightarrow> Lut list \<Rightarrow> (nat \<times> nat) list \<Rightarrow> bool" where
  "pair_inv luts0 i luts ps \<longleftrightarrow>
     length luts = length luts0 \<and> map nets luts = map nets luts0
     \<and> (\<forall>k < length luts0. used (luts ! k) \<longleftrightarrow> k \<in> set (pair_members ps))
     \<and> (\<forall>(a, b) \<in> set ps. a < i \<and> a < b \<and> b < length luts0)
     \<and> sorted_wrt (<) (map fst ps)
     \<and> distinct (pair_members ps)
     \<and> (\<forall>(a, b) \<in> set ps. a \<notin> set (consumed_before ps a) \<and> first_candidate luts0 ps a b)
     \<and> (\<forall>k < i. k \<notin> set (consumed_before ps k) \<longrightarrow>
            (\<forall>j. first_candidate luts0 ps k j \<longrightarrow> (k, j) \<in> set ps))
     \<and> (\<forall>k < i. k \<notin> set (consumed_before ps k) \<and> (\<forall>j. \<not> candidate luts0 ps k j) \<longrightarrow>
            k \<notin> set (pair_members ps))"

text \<open>
  A second, smaller invariant of that loop, which does not ask how the flags started.
\<close>

definition le6_inv :: "Lut list \<Rightarrow> Lut list \<Rightarrow> (nat \<times> nat) list \<Rightarrow> bool" where
  "le6_inv luts0 luts ps \<longleftrightarrow>
     length luts = length luts0 \<and> map nets luts = map nets luts0
     \<and> (\<forall>(a, b) \<in> set ps. a < b \<and> b < length luts0
           \<and> union_unique_count_le6 (luts0 ! a) (luts0 ! b))"

text \<open>
  Five instances on which the pairing is run below: \<open>A\<close> does not fit \<open>B\<close> (seven nets)
  and takes \<open>C\<close>, \<open>B\<close> takes \<open>D\<close>, and nothing is left for \<open>E\<close>.
\<close>

definition example_luts :: "Lut list" where
  "example_luts =
     [\<lparr>inst = ''A'', nets = [''a'', ''b'', ''c'', ''d''], used = False\<rparr>,
      \<lparr>inst = ''B'', nets = [''e'', ''f'', ''g''], used = False\<rparr>,
      \<lparr>inst = ''C'', nets = [''a'', ''b''], used = False\<rparr>,
      \<lparr>inst = ''D'', nets = [''e''], used = False\<rparr>,
      \<lparr>inst = ''E'', nets = [''p'', ''q'', ''r'', ''s'', ''t'', ''u''], used = False\<rparr>]"

definition example_paired :: "Lut list" where
  "example_paired =
     [\<lparr>inst = ''A'', nets = [''a'', ''b'', ''c'', ''d''], used = True\<rparr>,
      \<lparr>inst = ''B'', nets = [''e'', ''f'', ''g''], used = True\<rparr>,
      \<lparr>inst = ''C'', nets = [''a'', ''b''], used = True\<rparr>,
      \<lparr>inst = ''D'', nets = [''e''], used = True\<rparr>,
      \<lparr>inst = ''E'', nets = [''p'', ''q'', ''r'', ''s'', ''t'', ''u''], used = False\<rparr>]"

text \<open>The text of the end-to-end scenario: three lines, each ended by a line feed.\<close>

definition scenario_text :: string where
  "scenario_text =
     ''GTP_LUT6 u1 ( .I0(a), .I1(b), .I2(c), .Z(x) );'' @ [CHR 0x0A]
     @ ''GTP_LUT6 u2 ( .I0(c), .I1(d), .Z(y) );'' @ [CHR 0x0A]
     @ ''GTP_LUT6 u3 ( .I0(m), .I1(n), .I2(o), .I3(p), .I4(q), .I5(r), .Z(z) );'' @ [CHR 0x0A]"

section \<open>Facts about the lexical helpers\<close>

lemma isdigit_iff: "isdigit c \<longleftrightarrow> c \<in> set ''0123456789''"
proof
  assume "isdigit c"
  then have "48 \<le> (of_char c :: nat) \<and> (of_char c :: nat) \<le> 57" by (simp add: isdigit_def)
  then have "(of_char c :: nat) \<in> {48, 49, 50, 51, 52, 53, 54, 55, 56, 57}"
    by (simp only: insert_iff empty_iff) arith
  then have "(of_char c :: nat) \<in> of_char ` set ''0123456789''" by simp
  then obtain d where "d \<in> set ''0123456789''" "(of_char c :: nat) = of_char d" by blast
  then show "c \<in> set ''0123456789''" by (simp only: of_char_eq_iff)
next
  assume "c \<in> set ''0123456789''"
  then show "isdigit c" by (auto simp: isdigit_def)
qed

lemma digits_only_iff: "digits_only p \<longleftrightarrow> (\<forall>c \<in> set p. isdigit c)"
  by (induction p) auto

lemma take_prefix_iff: "take (length pre) s = pre \<longleftrightarrow> (\<exists>r. s = pre @ r)"
  by (metis append_eq_conv_conj append_take_drop_id)

lemma record_flag_iff: "record_flag port \<longleftrightarrow> input_port port"
  by (cases port)
    (auto simp: record_flag_def input_port_def digits_only_iff isdigit_iff Suc_le_eq list_all_iff)

lemma parse_identifier_nonempty:
  "parse_identifier p = Some (tok, r) \<Longrightarrow> p \<noteq> [] \<and> tok \<noteq> []"
  by (auto simp: parse_identifier_def skip_spaces_def split: list.splits if_splits)

section \<open>Facts about the insertion of a net\<close>

lemma net_exists_iff:
  "len \<le> length net \<Longrightarrow> net_exists ss net len \<longleftrightarrow> take len net \<in> set ss"
proof (induction ss)
  case Nil
  then show ?case by simp
next
  case (Cons s ss)
  have "(take len s = take len net \<and> length s = len) \<longleftrightarrow> s = take len net"
    using Cons.prems by (auto simp: min_def)
  then show ?case using Cons by auto
qed

lemma take_trailing:
  "take (length s - length (takeWhile P (rev s))) s = rev (dropWhile P (rev s))"
proof -
  define A where "A = rev (dropWhile P (rev s))"
  define B where "B = rev (takeWhile P (rev s))"
  have "rev s = rev B @ rev A" by (simp add: A_def B_def)
  then have "rev s = rev (A @ B)" by simp
  then have s: "s = A @ B" by (simp only: rev_is_rev_conv)
  have "length s = length A + length B" by (subst s) simp
  moreover have "length (takeWhile P (rev s)) = length B" by (simp add: B_def)
  ultimately have "length s - length (takeWhile P (rev s)) = length A" by simp
  moreover have "take (length A) s = A" by (subst s) simp
  ultimately show ?thesis by (simp add: A_def)
qed

lemma lut_add_net_unique_char:
  "lut_add_net_unique l net =
     (if trim net = [] \<or> trim net \<in> set (nets l) then l
      else l\<lparr>nets := nets l @ [trim net]\<rparr>)"
proof -
  define n1 where "n1 = dropWhile isspace net"
  define len where "len = length n1 - length (takeWhile isspace (rev n1))"
  have t: "take len n1 = trim net"
    unfolding len_def trim_def n1_def by (rule take_trailing)
  have le: "len \<le> length n1" by (simp add: len_def)
  have "length (trim net) = len" using le by (simp flip: t)
  then have z: "len = 0 \<longleftrightarrow> trim net = []" by auto
  have "trim net = rev (dropWhile isspace (rev n1))" by (simp add: trim_def n1_def)
  then have e: "n1 = [] \<Longrightarrow> trim net = []" by simp
  have x: "net_exists (nets l) n1 len \<longleftrightarrow> trim net \<in> set (nets l)"
    using net_exists_iff [OF le, of "nets l"] by (simp only: t)
  have u: "lut_add_net_unique l net =
      (if n1 = [] then l else if len = 0 then l
       else if net_exists (nets l) n1 len then l
       else l\<lparr>nets := nets l @ [take len n1]\<rparr>)"
    by (simp add: lut_add_net_unique_def Let_def n1_def len_def)
  show ?thesis
  proof (cases "n1 = []")
    case True
    then show ?thesis using u e by simp
  next
    case False
    then show ?thesis using u z x t by simp
  qed
qed

lemma lut_add_net_unique_distinct:
  "distinct (nets l) \<Longrightarrow> distinct (nets (lut_add_net_unique l net))"
  by (simp add: lut_add_net_unique_char)

lemma lut_add_net_unique_used: "used (lut_add_net_unique l net) = used l"
  by (simp add: lut_add_net_unique_char)

section \<open>Facts about the scan\<close>

lemma port_step_binding:
  assumes "skip_spaces p = CHR ''.'' # cs" "parse_identifier cs = Some (port, p2)"
    "skip_spaces p2 = CHR ''('' # p4"
  shows "port_step p depth lut =
     Inr (False, drop 1 (dropWhile (\<lambda>x. x \<noteq> CHR '')'') p4), depth,
       if input_port port then lut_add_net_unique lut (takeWhile (\<lambda>x. x \<noteq> CHR '')'') p4)
       else lut)"
proof -
  define p5 where "p5 = dropWhile (\<lambda>x. x \<noteq> CHR '')'') p4"
  have "p5 = [] \<or> hd p5 = CHR '')''"
    unfolding p5_def by (metis (mono_tags, lifting) hd_dropWhile)
  then have "(case p5 of [] \<Rightarrow> [] | c5 # cs5 \<Rightarrow> if c5 = CHR '')'' then cs5 else c5 # cs5)
      = drop 1 p5"
    by (cases p5) auto
  then show ?thesis
    using assms by (simp add: port_step_def Let_def record_flag_iff p5_def)
qed

lemma scan_step_keeps:
  assumes "scan_step p = Inr (p', Some lut)"
    and "\<And>name. P \<lparr>inst = name, nets = [], used = False\<rparr>"
    and "\<And>l net. P l \<Longrightarrow> P (lut_add_net_unique l net)"
  shows "P lut"
proof -
  obtain name p3 p4 depth where
    "port_loop p3 1 \<lparr>inst = name, nets = [], used = False\<rparr> = Inr (p4, depth, lut)"
    using assms(1)
    by (auto simp: scan_step_def split: option.splits if_splits list.splits sum.splits)
  then show ?thesis
    using port_loop_keeps [of p3 1 _ p4 depth lut P] assms(2,3) by blast
qed

lemma parse_loop_unfold:
  "p \<noteq> [] \<Longrightarrow> parse_loop p acc =
     (case scan_step p of
        Inl e \<Rightarrow> Inl e
      | Inr (p', None) \<Rightarrow> parse_loop p' acc
      | Inr (p', Some lut) \<Rightarrow> parse_loop p' (acc @ [lut]))"
  by (subst parse_loop.simps) simp

lemma parse_loop_keeps:
  assumes "parse_loop p acc = Inr luts"
    and "\<forall>l \<in> set acc. P l"
    and "\<And>name. P \<lparr>inst = name, nets = [], used = False\<rparr>"
    and "\<And>l net. P l \<Longrightarrow> P (lut_add_net_unique l net)"
  shows "\<forall>l \<in> set luts. P l"
  using assms(1,2)
proof (induction p acc rule: parse_loop.induct)
  case (1 p acc)
  show ?case
  proof (cases "p = []")
    case True
    then have "parse_loop p acc = Inr acc" by (subst parse_loop.simps) simp
    then show ?thesis using "1.prems" by simp
  next
    case False
    note u = parse_loop_unfold [OF False, of acc]
    then obtain p' r where st: "scan_step p = Inr (p', r)"
      using "1.prems"(1) by (cases "scan_step p") auto
    show ?thesis
    proof (cases r)
      case None
      then have a: "parse_loop p' acc = Inr luts" using u st "1.prems"(1) by simp
      show ?thesis using "1.IH"(1) [OF False st refl None a "1.prems"(2)] .
    next
      case (Some lut)
      then have a: "parse_loop p' (acc @ [lut]) = Inr luts" using u st "1.prems"(1) by simp
      have "scan_step p = Inr (p', Some lut)" using st Some by simp
      then have "P lut" using assms(3,4) by (rule scan_step_keeps)
      then have b: "\<forall>l \<in> set (acc @ [lut]). P l" using "1.prems"(2) by simp
      show ?thesis using "1.IH"(2) [OF False st refl Some a b] .
    qed
  qed
qed

lemma parse_unused:
  assumes "parse_luts_from_buffer buf = Inr luts"
  shows "\<forall>l \<in> set luts. \<not> used l \<and> distinct (nets l)"
  using assms parse_loop_keeps [of _ "[]" luts "\<lambda>l. \<not> used l \<and> distinct (nets l)"]
  by (simp add: parse_luts_from_buffer_def lut_add_net_unique_distinct lut_add_net_unique_used)

section \<open>Facts about the pairing\<close>

lemma union_count_iff:
  "union_count a b c \<longleftrightarrow> c + int (length (filter (\<lambda>n. n \<notin> set a) b)) \<le> 6"
  by (induction b arbitrary: c) auto

lemma union_le6_sound:
  assumes "union_unique_count_le6 a b"
  shows "card (set (nets a) \<union> set (nets b)) \<le> 6"
proof -
  have "set (nets a) \<union> set (nets b) = set (nets a) \<union> set (filter (\<lambda>n. n \<notin> set (nets a)) (nets b))"
    by auto
  then have "card (set (nets a) \<union> set (nets b))
      \<le> card (set (nets a)) + card (set (filter (\<lambda>n. n \<notin> set (nets a)) (nets b)))"
    by (simp add: card_Un_le)
  also have "\<dots> \<le> length (nets a) + length (filter (\<lambda>n. n \<notin> set (nets a)) (nets b))"
    by (rule add_mono) (rule card_length)+
  also have "\<dots> \<le> 6"
    using assms by (simp add: union_unique_count_le6_def union_count_iff)
  finally show ?thesis .
qed

lemma union_le6_card:
  assumes "distinct (nets a)" "distinct (nets b)"
  shows "union_unique_count_le6 a b \<longleftrightarrow> card (set (nets a) \<union> set (nets b)) \<le> 6"
proof -
  define r where "r = filter (\<lambda>n. n \<notin> set (nets a)) (nets b)"
  have u: "set (nets a) \<union> set (nets b) = set (nets a) \<union> set r"
    by (auto simp: r_def)
  have "set (nets a) \<inter> set r = {}" by (auto simp: r_def)
  then have "card (set (nets a) \<union> set r) = card (set (nets a)) + card (set r)"
    by (simp add: card_Un_disjoint)
  moreover have "distinct r" using assms(2) by (simp add: r_def)
  ultimately have "card (set (nets a) \<union> set (nets b)) = length (nets a) + length r"
    using assms(1) u by (simp add: distinct_card)
  moreover have "union_unique_count_le6 a b \<longleftrightarrow> int (length (nets a) + length r) \<le> 6"
    by (simp add: union_unique_count_le6_def union_count_iff r_def)
  moreover have "int (length (nets a) + length r) \<le> 6 \<longleftrightarrow> length (nets a) + length r \<le> 6"
    by linarith
  ultimately show ?thesis by (simp only:)
qed

lemma union_le6_nets:
  "nets a = nets a' \<Longrightarrow> nets b = nets b' \<Longrightarrow>
     union_unique_count_le6 a b = union_unique_count_le6 a' b'"
  by (simp add: union_unique_count_le6_def)

lemma find_best_Some:
  "find_best luts n i j = Some b \<Longrightarrow>
     j \<le> b \<and> b < n \<and> \<not> used (luts ! b) \<and> union_unique_count_le6 (luts ! i) (luts ! b)
     \<and> (\<forall>k. j \<le> k \<and> k < b \<longrightarrow> used (luts ! k) \<or> \<not> union_unique_count_le6 (luts ! i) (luts ! k))"
proof (induction luts n i j rule: find_best.induct)
  case (1 luts n i j)
  show ?case
  proof (cases "j < n")
    case False
    then show ?thesis using "1.prems" by (simp add: find_best.simps [of luts n i j])
  next
    case True
    note jn = True
    show ?thesis
    proof (cases "\<not> used (luts ! j) \<and> union_unique_count_le6 (luts ! i) (luts ! j)")
      case True
      then have "b = j" using "1.prems" jn by (simp add: find_best.simps [of luts n i j])
      then show ?thesis using True jn by auto
    next
      case False
      then have r: "find_best luts n i (j + 1) = Some b"
        using "1.prems" jn by (auto simp: find_best.simps [of luts n i j] split: if_splits)
      have ih: "j + 1 \<le> b \<and> b < n \<and> \<not> used (luts ! b)
          \<and> union_unique_count_le6 (luts ! i) (luts ! b)
          \<and> (\<forall>k. j + 1 \<le> k \<and> k < b \<longrightarrow>
                used (luts ! k) \<or> \<not> union_unique_count_le6 (luts ! i) (luts ! k))"
      proof (cases "used (luts ! j)")
        case True
        show ?thesis using "1.IH"(1) [OF jn True r] .
      next
        case False
        with \<open>\<not> (\<not> used (luts ! j) \<and> union_unique_count_le6 (luts ! i) (luts ! j))\<close>
        have "\<not> union_unique_count_le6 (luts ! i) (luts ! j)" by simp
        then show ?thesis using "1.IH"(2) [OF jn False _ r] by simp
      qed
      have "used (luts ! k) \<or> \<not> union_unique_count_le6 (luts ! i) (luts ! k)"
        if "j \<le> k \<and> k < b" for k
      proof (cases "k = j")
        case True
        then show ?thesis using False by auto
      next
        case False
        then have "j + 1 \<le> k \<and> k < b" using that by simp
        then show ?thesis using ih by blast
      qed
      then show ?thesis using ih by auto
    qed
  qed
qed

lemma find_best_None:
  "find_best luts n i j = None \<Longrightarrow> j \<le> k \<Longrightarrow> k < n \<Longrightarrow>
     used (luts ! k) \<or> \<not> union_unique_count_le6 (luts ! i) (luts ! k)"
proof (induction luts n i j rule: find_best.induct)
  case (1 luts n i j)
  have jn: "j < n" using "1.prems" by simp
  have nf: "used (luts ! j) \<or> \<not> union_unique_count_le6 (luts ! i) (luts ! j)"
    using "1.prems"(1) jn by (auto simp: find_best.simps [of luts n i j] split: if_splits)
  have r: "find_best luts n i (j + 1) = None"
    using "1.prems"(1) jn by (auto simp: find_best.simps [of luts n i j] split: if_splits)
  show ?case
  proof (cases "k = j")
    case True
    then show ?thesis using nf by simp
  next
    case False
    then have kj: "j + 1 \<le> k" using "1.prems"(2) by simp
    show ?thesis
    proof (cases "used (luts ! j)")
      case True
      show ?thesis using "1.IH"(1) [OF jn True r kj "1.prems"(3)] .
    next
      case False
      then have "\<not> union_unique_count_le6 (luts ! i) (luts ! j)" using nf by simp
      then show ?thesis using "1.IH"(2) [OF jn False _ r kj "1.prems"(3)] by simp
    qed
  qed
qed

lemma pair_members_snoc: "pair_members (ps @ [(a, b)]) = pair_members ps @ [a, b]"
  by (simp add: pair_members_def)

lemma consumed_before_all:
  assumes "\<forall>(a, b) \<in> set ps. a < i"
  shows "consumed_before ps i = pair_members ps"
proof -
  have "filter (\<lambda>(a, b). a < i) ps = ps"
    using assms by (auto intro: filter_True)
  then show ?thesis by (simp add: consumed_before_def)
qed

lemma consumed_before_snoc:
  "k \<le> i \<Longrightarrow> consumed_before (ps @ [(i, b)]) k = consumed_before ps k"
  by (simp add: consumed_before_def)

lemma candidate_snoc:
  "k \<le> i \<Longrightarrow> candidate luts (ps @ [(i, b)]) k j = candidate luts ps k j"
  by (simp add: candidate_def consumed_before_snoc)

lemma first_candidate_snoc:
  "k \<le> i \<Longrightarrow> first_candidate luts (ps @ [(i, b)]) k j = first_candidate luts ps k j"
  by (simp add: first_candidate_def candidate_snoc)

lemma first_candidate_unique:
  "first_candidate luts ps i j \<Longrightarrow> first_candidate luts ps i j' \<Longrightarrow> j = j'"
  by (metis first_candidate_def linorder_neqE_nat)

text \<open>
  Under the invariant of the outer loop, the candidates of \<open>i\<close> are the instances that
  \<open>find_best\<close> accepts.
\<close>

lemma inv_candidate:
  assumes "pair_inv luts0 i luts ps" "i < length luts0"
  shows "candidate luts0 ps i j \<longleftrightarrow>
     i < j \<and> j < length luts0 \<and> \<not> used (luts ! j) \<and> union_unique_count_le6 (luts ! i) (luts ! j)"
proof -
  have b: "\<forall>(a, b) \<in> set ps. a < i" using assms(1) by (auto simp: pair_inv_def)
  have c: "consumed_before ps i = pair_members ps" using b by (rule consumed_before_all)
  have u: "\<forall>k < length luts0. used (luts ! k) \<longleftrightarrow> k \<in> set (pair_members ps)"
    using assms(1) by (simp add: pair_inv_def)
  have m: "map nets luts = map nets luts0" and l: "length luts = length luts0"
    using assms(1) by (simp_all add: pair_inv_def)
  have n: "nets (luts ! k) = nets (luts0 ! k)" if "k < length luts0" for k
    using that m l by (metis nth_map)
  show ?thesis
  proof (cases "i < j \<and> j < length luts0")
    case False
    then show ?thesis by (auto simp: candidate_def)
  next
    case True
    then have "union_unique_count_le6 (luts ! i) (luts ! j)
        = union_unique_count_le6 (luts0 ! i) (luts0 ! j)"
      using n assms(2) by (intro union_le6_nets) auto
    then show ?thesis using True u c by (auto simp: candidate_def)
  qed
qed

lemma inv_skip:
  assumes "pair_inv luts0 i luts ps" "i < length luts0"
    and "used (luts ! i) \<or> (\<forall>j. \<not> candidate luts0 ps i j)"
  shows "pair_inv luts0 (Suc i) luts ps"
proof -
  have b: "\<forall>(a, b) \<in> set ps. a < i" using assms(1) by (auto simp: pair_inv_def)
  have c: "consumed_before ps i = pair_members ps" using b by (rule consumed_before_all)
  have u: "used (luts ! i) \<longleftrightarrow> i \<in> set (pair_members ps)"
    using assms(1,2) by (simp add: pair_inv_def)
  have g2: "\<forall>j. first_candidate luts0 ps i j \<longrightarrow> (i, j) \<in> set ps"
    if "i \<notin> set (consumed_before ps i)"
    using that assms(3) u c by (auto simp: first_candidate_def)
  have g3: "i \<notin> set (pair_members ps)" if "i \<notin> set (consumed_before ps i)"
    using that c by simp
  have o2: "\<forall>k < i. k \<notin> set (consumed_before ps k) \<longrightarrow>
            (\<forall>j. first_candidate luts0 ps k j \<longrightarrow> (k, j) \<in> set ps)"
    using assms(1) by (simp add: pair_inv_def)
  have o3: "\<forall>k < i. k \<notin> set (consumed_before ps k) \<and> (\<forall>j. \<not> candidate luts0 ps k j) \<longrightarrow>
            k \<notin> set (pair_members ps)"
    using assms(1) by (simp add: pair_inv_def)
  have n2: "\<forall>k < Suc i. k \<notin> set (consumed_before ps k) \<longrightarrow>
            (\<forall>j. first_candidate luts0 ps k j \<longrightarrow> (k, j) \<in> set ps)"
    using o2 g2 by (simp add: less_Suc_eq)
  have n3: "\<forall>k < Suc i. k \<notin> set (consumed_before ps k) \<and> (\<forall>j. \<not> candidate luts0 ps k j) \<longrightarrow>
            k \<notin> set (pair_members ps)"
    using o3 g3 by (simp add: less_Suc_eq)
  have n1: "\<forall>(a, b) \<in> set ps. a < Suc i \<and> a < b \<and> b < length luts0"
    using assms(1) by (auto simp: pair_inv_def)
  show ?thesis
    unfolding pair_inv_def
    using n1 n2 n3 assms(1) unfolding pair_inv_def by blast
qed

lemma inv_pair:
  assumes inv: "pair_inv luts0 i luts ps" and i: "i < length luts0" and nu: "\<not> used (luts ! i)"
    and fc: "first_candidate luts0 ps i b"
    and l1: "luts1 = luts[i := (luts ! i)\<lparr>used := True\<rparr>]"
    and l2: "luts2 = luts1[b := (luts1 ! b)\<lparr>used := True\<rparr>]"
  shows "pair_inv luts0 (Suc i) luts2 (ps @ [(i, b)])"
proof -
  let ?ps = "ps @ [(i, b)]"
  have len: "length luts = length luts0" using inv by (simp add: pair_inv_def)
  have bnd: "\<forall>(a, c) \<in> set ps. a < i \<and> a < c \<and> c < length luts0"
    using inv by (simp add: pair_inv_def)
  then have bi: "\<forall>(a, c) \<in> set ps. a < i" by auto
  have cb: "consumed_before ps i = pair_members ps" using bi by (rule consumed_before_all)
  have u: "\<forall>k < length luts0. used (luts ! k) \<longleftrightarrow> k \<in> set (pair_members ps)"
    using inv by (simp add: pair_inv_def)
  have cand: "candidate luts0 ps i b" using fc by (simp add: first_candidate_def)
  then have ib: "i < b" and bn: "b < length luts0" and bf: "b \<notin> set (pair_members ps)"
    using cb by (simp_all add: candidate_def)
  have "i \<notin> set (pair_members ps)" using u i nu by simp
  note inm = this
  \<comment> \<open>1, 2: the list and its nets\<close>
  have c1: "length luts2 = length luts0" using len by (simp add: l1 l2)
  have "nets (luts2 ! k) = nets (luts ! k)" if "k < length luts" for k
    using that ib bn i len by (auto simp: l1 l2 nth_list_update)
  then have "map nets luts2 = map nets luts"
    using c1 len by (intro nth_equalityI) simp_all
  then have c2: "map nets luts2 = map nets luts0" using inv by (simp add: pair_inv_def)
  \<comment> \<open>3: the flags\<close>
  have "used (luts2 ! k) \<longleftrightarrow> k = i \<or> k = b \<or> used (luts ! k)" if "k < length luts" for k
    using that ib bn i len by (auto simp: l1 l2 nth_list_update)
  then have c3: "\<forall>k < length luts0. used (luts2 ! k) \<longleftrightarrow> k \<in> set (pair_members ?ps)"
    using u len by (auto simp: pair_members_snoc)
  \<comment> \<open>4, 5, 6\<close>
  have c4: "\<forall>(a, c) \<in> set ?ps. a < Suc i \<and> a < c \<and> c < length luts0"
    using bnd ib bn by auto
  have "sorted_wrt (<) (map fst ps)" using inv by (simp add: pair_inv_def)
  then have c5: "sorted_wrt (<) (map fst ?ps)"
    using bi by (auto simp: sorted_wrt_append)
  have "distinct (pair_members ps)" using inv by (simp add: pair_inv_def)
  then have c6: "distinct (pair_members ?ps)"
    using inm bf ib by (simp add: pair_members_snoc)
  \<comment> \<open>7: every pair is a first fit\<close>
  have o7: "\<forall>(a, c) \<in> set ps. a \<notin> set (consumed_before ps a) \<and> first_candidate luts0 ps a c"
    using inv by (simp add: pair_inv_def)
  have "a \<notin> set (consumed_before ?ps a) \<and> first_candidate luts0 ?ps a c"
    if "(a, c) \<in> set ps" for a c
  proof -
    have "a \<le> i" using that bi by auto
    then show ?thesis using that o7 by (auto simp: consumed_before_snoc first_candidate_snoc)
  qed
  moreover have "i \<notin> set (consumed_before ?ps i) \<and> first_candidate luts0 ?ps i b"
    using inm cb fc by (simp add: consumed_before_snoc first_candidate_snoc)
  ultimately have c7: "\<forall>(a, c) \<in> set ?ps.
      a \<notin> set (consumed_before ?ps a) \<and> first_candidate luts0 ?ps a c"
    by auto
  \<comment> \<open>8: a first candidate is paired\<close>
  have o8: "\<forall>k < i. k \<notin> set (consumed_before ps k) \<longrightarrow>
            (\<forall>j. first_candidate luts0 ps k j \<longrightarrow> (k, j) \<in> set ps)"
    using inv by (simp add: pair_inv_def)
  have "(k, j) \<in> set ?ps"
    if "k < Suc i" "k \<notin> set (consumed_before ?ps k)" "first_candidate luts0 ?ps k j" for k j
  proof (cases "k = i")
    case True
    then have "first_candidate luts0 ps i j" using that(3) by (simp add: first_candidate_snoc)
    then have "j = b" using fc by (rule first_candidate_unique)
    then show ?thesis using True by simp
  next
    case False
    then have ki: "k < i" using that(1) by simp
    then have "k \<notin> set (consumed_before ps k)" "first_candidate luts0 ps k j"
      using that(2,3) by (simp_all add: consumed_before_snoc first_candidate_snoc)
    then show ?thesis using o8 ki by simp
  qed
  then have c8: "\<forall>k < Suc i. k \<notin> set (consumed_before ?ps k) \<longrightarrow>
            (\<forall>j. first_candidate luts0 ?ps k j \<longrightarrow> (k, j) \<in> set ?ps)"
    by blast
  \<comment> \<open>9: no candidate, never paired\<close>
  have o9: "\<forall>k < i. k \<notin> set (consumed_before ps k) \<and> (\<forall>j. \<not> candidate luts0 ps k j) \<longrightarrow>
            k \<notin> set (pair_members ps)"
    using inv by (simp add: pair_inv_def)
  have "k \<notin> set (pair_members ?ps)"
    if "k < Suc i" "k \<notin> set (consumed_before ?ps k)" "\<forall>j. \<not> candidate luts0 ?ps k j" for k
  proof (cases "k = i")
    case True
    then have "\<not> candidate luts0 ps i b" using that(3) by (simp add: candidate_snoc)
    then show ?thesis using cand by simp
  next
    case False
    then have ki: "k < i" using that(1) by simp
    then have "k \<notin> set (consumed_before ps k)" "\<forall>j. \<not> candidate luts0 ps k j"
      using that(2,3) by (simp_all add: consumed_before_snoc candidate_snoc)
    then have "k \<notin> set (pair_members ps)" using o9 ki by simp
    then show ?thesis using ki ib by (simp add: pair_members_snoc)
  qed
  then have c9: "\<forall>k < Suc i. k \<notin> set (consumed_before ?ps k) \<and> (\<forall>j. \<not> candidate luts0 ?ps k j)
      \<longrightarrow> k \<notin> set (pair_members ?ps)"
    by blast
  show ?thesis
    unfolding pair_inv_def using c1 c2 c3 c4 c5 c6 c7 c8 c9 by blast
qed

lemma pair_step_inv:
  assumes inv: "pair_inv luts0 i luts ps" and i: "i < length luts0"
    and st: "pair_step (length luts0) luts ps i = (luts', ps')"
  shows "pair_inv luts0 (Suc i) luts' ps'"
proof (cases "used (luts ! i)")
  case True
  then have "luts' = luts" "ps' = ps" using st by (simp_all add: pair_step_def)
  then show ?thesis using inv_skip [OF inv i] True by simp
next
  case False
  note nu = False
  note ic = inv_candidate [OF inv i]
  show ?thesis
  proof (cases "find_best luts (length luts0) i (i + 1)")
    case None
    then have e: "luts' = luts" "ps' = ps" using st nu by (simp_all add: pair_step_def)
    have "\<not> candidate luts0 ps i j" for j
    proof
      assume "candidate luts0 ps i j"
      then have "i + 1 \<le> j" "j < length luts0" "\<not> used (luts ! j)"
        "union_unique_count_le6 (luts ! i) (luts ! j)"
        using ic by simp_all
      then show False using find_best_None [OF None, of j] by simp
    qed
    then show ?thesis using inv_skip [OF inv i] e by simp
  next
    case (Some b)
    note fb = find_best_Some [OF Some]
    have "candidate luts0 ps i b" using fb ic by simp
    moreover have "\<not> candidate luts0 ps i k" if "k < b" for k
    proof
      assume "candidate luts0 ps i k"
      then have "i + 1 \<le> k" "\<not> used (luts ! k)" "union_unique_count_le6 (luts ! i) (luts ! k)"
        using ic by simp_all
      then show False using fb that by blast
    qed
    ultimately have fc: "first_candidate luts0 ps i b" by (simp add: first_candidate_def)
    define luts1 where "luts1 = luts[i := (luts ! i)\<lparr>used := True\<rparr>]"
    define luts2 where "luts2 = luts1[b := (luts1 ! b)\<lparr>used := True\<rparr>]"
    have "luts' = luts2" "ps' = ps @ [(i, b)]"
      using st nu Some by (simp_all add: pair_step_def Let_def luts1_def luts2_def)
    then show ?thesis using inv_pair [OF inv i nu fc luts1_def luts2_def] by simp
  qed
qed

lemma pair_loop_inv:
  assumes "pair_inv luts0 i luts ps" "i \<le> length luts0"
    "pair_loop (length luts0) luts ps i = (luts', ps')"
  shows "pair_inv luts0 (length luts0) luts' ps'"
  using assms
proof (induction "length luts0" luts ps i rule: pair_loop.induct)
  case (1 luts ps i)
  show ?case
  proof (cases "i < length luts0")
    case False
    then have "i = length luts0" using "1.prems"(2) by simp
    moreover have "pair_loop (length luts0) luts ps i = (luts, ps)"
      using False by (subst pair_loop.simps) simp
    ultimately show ?thesis using "1.prems" by simp
  next
    case True
    obtain luts1 ps1 where st: "pair_step (length luts0) luts ps i = (luts1, ps1)"
      by (cases "pair_step (length luts0) luts ps i")
    have "pair_loop (length luts0) luts ps i = pair_loop (length luts0) luts1 ps1 (i + 1)"
      using True st by (subst pair_loop.simps) simp
    then have r: "pair_loop (length luts0) luts1 ps1 (i + 1) = (luts', ps')"
      using "1.prems"(3) by simp
    have v: "pair_inv luts0 (i + 1) luts1 ps1"
      using pair_step_inv [OF "1.prems"(1) True st] by simp
    have "i + 1 \<le> length luts0" using True by simp
    then show ?thesis using "1.hyps" [OF True st [symmetric] v _ r] by simp
  qed
qed

lemma pair_luts_inv:
  assumes "\<forall>l \<in> set luts. \<not> used l" "pair_luts luts = (luts', ps)"
  shows "pair_inv luts (length luts) luts' ps"
proof -
  have "pair_inv luts 0 luts []"
    using assms(1) by (simp add: pair_inv_def pair_members_def)
  then show ?thesis
    using assms(2) pair_loop_inv [of luts 0 luts "[]" luts' ps] by (simp add: pair_luts_def)
qed

lemma pair_step_le6:
  assumes inv: "le6_inv luts0 luts ps" and i: "i < length luts0"
    and st: "pair_step (length luts0) luts ps i = (luts', ps')"
  shows "le6_inv luts0 luts' ps'"
proof (cases "used (luts ! i) \<or> find_best luts (length luts0) i (i + 1) = None")
  case True
  then have "luts' = luts" "ps' = ps"
    using st by (auto simp: pair_step_def split: if_splits)
  then show ?thesis using inv by simp
next
  case False
  then obtain b where fb: "find_best luts (length luts0) i (i + 1) = Some b" by auto
  note f = find_best_Some [OF fb]
  have len: "length luts = length luts0" and m: "map nets luts = map nets luts0"
    using inv by (simp_all add: le6_inv_def)
  have ib: "i < b" "b < length luts0" using f by simp_all
  have n: "nets (luts ! k) = nets (luts0 ! k)" if "k < length luts0" for k
    using that m len by (metis nth_map)
  have "union_unique_count_le6 (luts0 ! i) (luts0 ! b) = union_unique_count_le6 (luts ! i) (luts ! b)"
    using n i ib by (intro union_le6_nets) simp_all
  then have le: "union_unique_count_le6 (luts0 ! i) (luts0 ! b)" using f by simp
  define luts1 where "luts1 = luts[i := (luts ! i)\<lparr>used := True\<rparr>]"
  define luts2 where "luts2 = luts1[b := (luts1 ! b)\<lparr>used := True\<rparr>]"
  have e: "luts' = luts2" "ps' = ps @ [(i, b)]"
    using st False fb by (simp_all add: pair_step_def Let_def luts1_def luts2_def)
  have c1: "length luts2 = length luts0" using len by (simp add: luts1_def luts2_def)
  have "nets (luts2 ! k) = nets (luts ! k)" if "k < length luts" for k
    using that ib i len by (auto simp: luts1_def luts2_def nth_list_update)
  then have "map nets luts2 = map nets luts"
    using c1 len by (intro nth_equalityI) simp_all
  then have c2: "map nets luts2 = map nets luts0" using m by simp
  have "\<forall>(a, c) \<in> set ps. a < c \<and> c < length luts0
      \<and> union_unique_count_le6 (luts0 ! a) (luts0 ! c)"
    using inv by (simp add: le6_inv_def)
  then have c3: "\<forall>(a, c) \<in> set (ps @ [(i, b)]). a < c \<and> c < length luts0
      \<and> union_unique_count_le6 (luts0 ! a) (luts0 ! c)"
    using ib le by auto
  show ?thesis unfolding le6_inv_def e using c1 c2 c3 by blast
qed

lemma pair_loop_le6:
  assumes "le6_inv luts0 luts ps" "pair_loop (length luts0) luts ps i = (luts', ps')"
  shows "le6_inv luts0 luts' ps'"
  using assms
proof (induction "length luts0" luts ps i rule: pair_loop.induct)
  case (1 luts ps i)
  show ?case
  proof (cases "i < length luts0")
    case False
    then have "pair_loop (length luts0) luts ps i = (luts, ps)"
      by (subst pair_loop.simps) simp
    then show ?thesis using "1.prems" by simp
  next
    case True
    obtain luts1 ps1 where st: "pair_step (length luts0) luts ps i = (luts1, ps1)"
      by (cases "pair_step (length luts0) luts ps i")
    have "pair_loop (length luts0) luts ps i = pair_loop (length luts0) luts1 ps1 (i + 1)"
      using True st by (subst pair_loop.simps) simp
    then have r: "pair_loop (length luts0) luts1 ps1 (i + 1) = (luts', ps')"
      using "1.prems"(2) by simp
    have v: "le6_inv luts0 luts1 ps1"
      using pair_step_le6 [OF "1.prems"(1) True st] .
    show ?thesis using "1.hyps" [OF True st [symmetric] v r] .
  qed
qed

lemma pair_luts_le6:
  assumes "pair_luts luts = (luts', ps)"
  shows "\<forall>(a, b) \<in> set ps. a < b \<and> b < length luts
     \<and> card (set (nets (luts ! a)) \<union> set (nets (luts ! b))) \<le> 6"
proof -
  have "le6_inv luts luts []" by (simp add: le6_inv_def)
  then have "le6_inv luts luts' ps"
    using assms pair_loop_le6 [of luts luts "[]" 0 luts' ps] by (simp add: pair_luts_def)
  then have "\<forall>(a, b) \<in> set ps. a < b \<and> b < length luts
      \<and> union_unique_count_le6 (luts ! a) (luts ! b)"
    by (simp add: le6_inv_def)
  then show ?thesis using union_le6_sound by fastforce
qed

lemma used_count:
  assumes "\<forall>k < length xs. used (xs ! k) \<longleftrightarrow> k \<in> set ms" "distinct ms"
    "\<forall>k \<in> set ms. k < length xs"
  shows "length (filter used xs) = length ms"
proof -
  have "{i. i < length xs \<and> used (xs ! i)} = set ms" using assms(1,3) by auto
  then have "length (filter used xs) = card (set ms)"
    by (simp add: length_filter_conv_card)
  then show ?thesis using assms(2) by (simp add: distinct_card)
qed

lemma length_pair_members: "length (pair_members ps) = 2 * length ps"
  by (induction ps) (auto simp: pair_members_def)

lemma set_pair_members:
  "k \<in> set (pair_members ps) \<longleftrightarrow> (\<exists>(a, b) \<in> set ps. k = a \<or> k = b)"
  by (auto simp: pair_members_def)

lemma pair_step_marks_unmarked:
  assumes "pair_step n luts ps i = (luts2, ps @ [(a, b)])"
  shows "a = i \<and> i < b \<and> b < n \<and> \<not> used (luts ! i) \<and> \<not> used (luts ! b)"
proof (cases "used (luts ! i)")
  case True
  then show ?thesis using assms by (simp add: pair_step_def)
next
  case False
  show ?thesis
  proof (cases "find_best luts n i (i + 1)")
    case None
    then show ?thesis using assms False by (simp add: pair_step_def)
  next
    case (Some c)
    then have "a = i" "b = c" using assms False by (simp_all add: pair_step_def Let_def)
    then show ?thesis using find_best_Some [OF Some] False by simp
  qed
qed

lemma example_unused: "\<forall>l \<in> set example_luts. \<not> used l"
  by (simp add: example_luts_def)

lemma example_pairing: "pair_luts example_luts = (example_paired, [(0, 2), (1, 3)])"
  by code_simp

section \<open>The cell-name predicate\<close>

text \<open>
  Claim C4. \<open>is_gtp_lut_cell\<close> accepts an identifier exactly when it is \<open>GTP_LUT\<close> followed
  by one or more decimal digits and nothing else, and is not the string \<open>GTP_LUT6CARRY\<close>.
  \<open>GTP_LUT6\<close> is accepted; \<open>GTP_LUT6CARRY\<close>, \<open>GTP_LUTX\<close> and \<open>GTP_LUT\<close> are rejected.
\<close>

theorem is_gtp_lut_cell_spec:
  "(is_gtp_lut_cell cell \<longleftrightarrow>
      (\<exists>ds. cell = ''GTP_LUT'' @ ds \<and> ds \<noteq> [] \<and> (\<forall>d \<in> set ds. d \<in> set ''0123456789''))
      \<and> cell \<noteq> ''GTP_LUT6CARRY'')
   \<and> is_gtp_lut_cell ''GTP_LUT6''
   \<and> \<not> is_gtp_lut_cell ''GTP_LUT6CARRY''
   \<and> \<not> is_gtp_lut_cell ''GTP_LUTX''
   \<and> \<not> is_gtp_lut_cell ''GTP_LUT''"
proof -
  have gen: "is_gtp_lut_cell cell \<longleftrightarrow>
      (\<exists>ds. cell = ''GTP_LUT'' @ ds \<and> ds \<noteq> [] \<and> (\<forall>d \<in> set ds. d \<in> set ''0123456789''))
      \<and> cell \<noteq> ''GTP_LUT6CARRY''"
  proof (cases "take 7 cell = ''GTP_LUT''")
    case False
    have "length ''GTP_LUT'' = 7" by simp
    then have "\<not> (\<exists>ds. cell = ''GTP_LUT'' @ ds)"
      using False take_prefix_iff [of "''GTP_LUT''" cell] by metis
    then show ?thesis using False by (auto simp: is_gtp_lut_cell_def)
  next
    case True
    moreover have "length ''GTP_LUT'' = 7" by simp
    ultimately obtain ds where ds: "cell = ''GTP_LUT'' @ ds"
      using take_prefix_iff [of "''GTP_LUT''" cell] by metis
    have d: "drop 7 cell = ds" using ds by simp
    have "is_gtp_lut_cell cell \<longleftrightarrow>
        cell \<noteq> ''GTP_LUT6CARRY'' \<and> ds \<noteq> [] \<and> (\<forall>c \<in> set ds. isdigit c)"
      using True d by (cases ds) (auto simp: is_gtp_lut_cell_def Let_def digits_only_iff)
    then show ?thesis using ds by (auto simp: isdigit_iff)
  qed
  have ex: "is_gtp_lut_cell ''GTP_LUT6'' \<and> \<not> is_gtp_lut_cell ''GTP_LUT6CARRY''
      \<and> \<not> is_gtp_lut_cell ''GTP_LUTX'' \<and> \<not> is_gtp_lut_cell ''GTP_LUT''"
    by (simp add: is_gtp_lut_cell_def isdigit_def)
  show ?thesis using gen ex by blast
qed

theorem is_gtp_lut_cell_spec_witness:
  "is_gtp_lut_cell ''GTP_LUT12'' \<and> \<not> is_gtp_lut_cell ''GTP_LUT1x''"
proof -
  have "\<exists>ds. ''GTP_LUT12'' = ''GTP_LUT'' @ ds \<and> ds \<noteq> []
      \<and> (\<forall>d \<in> set ds. d \<in> set ''0123456789'')"
    by (rule exI [of _ "''12''"]) simp
  then have a: "is_gtp_lut_cell ''GTP_LUT12''"
    using is_gtp_lut_cell_spec [of "''GTP_LUT12''"] by simp
  have "\<not> (\<exists>ds. ''GTP_LUT1x'' = ''GTP_LUT'' @ ds \<and> ds \<noteq> []
      \<and> (\<forall>d \<in> set ds. d \<in> set ''0123456789''))"
    by auto
  then have "\<not> is_gtp_lut_cell ''GTP_LUT1x''"
    using is_gtp_lut_cell_spec [of "''GTP_LUT1x''"] by blast
  then show ?thesis using a by simp
qed

section \<open>The port filter\<close>

text \<open>
  Claim C5, which fails as it is stated: the port \<open>I0\<close> passes the filter, and yet a net
  expression that is empty, or blank, is not recorded. \<open>lut_add_net_unique\<close> returns at
  once when nothing is left of the net behind its leading white space (lines 59 and 60),
  so the instance \<open>u\<close> comes out with no input.
\<close>

theorem blank_net_not_recorded:
  "input_port ''I0'' \<and> record_flag ''I0''
   \<and> parse_luts_from_buffer ''GTP_LUT6 u ( .I0() );''
       = Inr [\<lparr>inst = ''u'', nets = [], used = False\<rparr>]
   \<and> parse_luts_from_buffer ''GTP_LUT6 u ( .I0( ) );''
       = Inr [\<lparr>inst = ''u'', nets = [], used = False\<rparr>]"
  by code_simp

text \<open>
  Claim C5 as amended. In a port binding (a dot, a port name, an opening parenthesis), the
  captured net expression is handed to \<open>lut_add_net_unique\<close> exactly when the port name
  has length at least 2, starts with \<open>I\<close> and has only decimal digits behind it. When it
  is, and the expression is not empty once the white space around it is removed, the
  trimmed expression is among the inputs of the instance behind the binding: put at their
  end when it was not among them, and the inputs are unchanged when it was. When the
  trimmed expression is empty, or the port name does not pass the filter, the binding is
  read and the instance is left as it was. So the port \<open>I0\<close> with the net \<open>n1\<close> is
  recorded, and \<open>I\<close>, \<open>Z\<close> and \<open>ISO3\<close> are read and not recorded.
\<close>

theorem port_filter_spec:
  "(skip_spaces p = CHR ''.'' # cs \<and> parse_identifier cs = Some (port, p2)
      \<and> skip_spaces p2 = CHR ''('' # p4
      \<and> net = takeWhile (\<lambda>x. x \<noteq> CHR '')'') p4
      \<and> lut' = (if input_port port then lut_add_net_unique lut net else lut)
    \<longrightarrow> port_step p depth lut =
          Inr (False, drop 1 (dropWhile (\<lambda>x. x \<noteq> CHR '')'') p4), depth, lut')
        \<and> nets lut' =
            (if input_port port \<and> trim net \<noteq> [] \<and> trim net \<notin> set (nets lut)
             then nets lut @ [trim net] else nets lut)
        \<and> inst lut' = inst lut \<and> used lut' = used lut
        \<and> (input_port port \<and> trim net \<noteq> [] \<longrightarrow> trim net \<in> set (nets lut'))
        \<and> (input_port port \<and> trim net = [] \<longrightarrow> lut' = lut)
        \<and> (\<not> input_port port \<longrightarrow> lut' = lut))
   \<and> (record_flag port \<longleftrightarrow> input_port port)
   \<and> parse_luts_from_buffer ''GTP_LUT6 u ( .I0(n1) );''
       = Inr [\<lparr>inst = ''u'', nets = [''n1''], used = False\<rparr>]
   \<and> parse_luts_from_buffer ''GTP_LUT6 u ( .I(n1) );''
       = Inr [\<lparr>inst = ''u'', nets = [], used = False\<rparr>]
   \<and> parse_luts_from_buffer ''GTP_LUT6 u ( .Z(n1) );''
       = Inr [\<lparr>inst = ''u'', nets = [], used = False\<rparr>]
   \<and> parse_luts_from_buffer ''GTP_LUT6 u ( .ISO3(n1) );''
       = Inr [\<lparr>inst = ''u'', nets = [], used = False\<rparr>]"
proof -
  have e1: "parse_luts_from_buffer ''GTP_LUT6 u ( .I0(n1) );''
      = Inr [\<lparr>inst = ''u'', nets = [''n1''], used = False\<rparr>]"
    by code_simp
  have e2: "parse_luts_from_buffer ''GTP_LUT6 u ( .I(n1) );''
      = Inr [\<lparr>inst = ''u'', nets = [], used = False\<rparr>]"
    by code_simp
  have e3: "parse_luts_from_buffer ''GTP_LUT6 u ( .Z(n1) );''
      = Inr [\<lparr>inst = ''u'', nets = [], used = False\<rparr>]"
    by code_simp
  have e4: "parse_luts_from_buffer ''GTP_LUT6 u ( .ISO3(n1) );''
      = Inr [\<lparr>inst = ''u'', nets = [], used = False\<rparr>]"
    by code_simp
  have g: "port_step p depth lut =
          Inr (False, drop 1 (dropWhile (\<lambda>x. x \<noteq> CHR '')'') p4), depth, lut')
        \<and> nets lut' =
            (if input_port port \<and> trim net \<noteq> [] \<and> trim net \<notin> set (nets lut)
             then nets lut @ [trim net] else nets lut)
        \<and> inst lut' = inst lut \<and> used lut' = used lut
        \<and> (input_port port \<and> trim net \<noteq> [] \<longrightarrow> trim net \<in> set (nets lut'))
        \<and> (input_port port \<and> trim net = [] \<longrightarrow> lut' = lut)
        \<and> (\<not> input_port port \<longrightarrow> lut' = lut)"
    if h: "skip_spaces p = CHR ''.'' # cs" "parse_identifier cs = Some (port, p2)"
      "skip_spaces p2 = CHR ''('' # p4" "net = takeWhile (\<lambda>x. x \<noteq> CHR '')'') p4"
      "lut' = (if input_port port then lut_add_net_unique lut net else lut)"
  proof -
    have a: "port_step p depth lut =
        Inr (False, drop 1 (dropWhile (\<lambda>x. x \<noteq> CHR '')'') p4), depth, lut')"
      using port_step_binding [OF h(1,2,3), of depth lut] h(4,5) by simp
    have b: "lut' = (if input_port port \<and> trim net \<noteq> [] \<and> trim net \<notin> set (nets lut)
        then lut\<lparr>nets := nets lut @ [trim net]\<rparr> else lut)"
      using h(5) by (simp add: lut_add_net_unique_char)
    show ?thesis using a by (simp add: b)
  qed
  show ?thesis using g record_flag_iff [of port] e1 e2 e3 e4 by blast
qed

theorem port_filter_spec_witness:
  "port_step ''.I0(n1) )'' 1 \<lparr>inst = ''u'', nets = [], used = False\<rparr>
     = Inr (False, '' )'', 1, \<lparr>inst = ''u'', nets = [''n1''], used = False\<rparr>)
   \<and> ''n1'' \<in> set (nets \<lparr>inst = ''u'', nets = [''n1''], used = False\<rparr>)
   \<and> port_step ''.Z(n1) )'' 1 \<lparr>inst = ''u'', nets = [], used = False\<rparr>
     = Inr (False, '' )'', 1, \<lparr>inst = ''u'', nets = [], used = False\<rparr>)"
proof -
  have h1: "skip_spaces ''.I0(n1) )'' = CHR ''.'' # ''I0(n1) )''" by code_simp
  have h2: "parse_identifier ''I0(n1) )'' = Some (''I0'', ''(n1) )'')" by code_simp
  have h3: "skip_spaces ''(n1) )'' = CHR ''('' # ''n1) )''" by code_simp
  have h4: "''n1'' = takeWhile (\<lambda>x. x \<noteq> CHR '')'') ''n1) )''" by code_simp
  have h5: "\<lparr>inst = ''u'', nets = [''n1''], used = False\<rparr>
      = (if input_port ''I0''
         then lut_add_net_unique \<lparr>inst = ''u'', nets = [], used = False\<rparr> ''n1''
         else \<lparr>inst = ''u'', nets = [], used = False\<rparr>)"
    by code_simp
  have d: "drop 1 (dropWhile (\<lambda>x. x \<noteq> CHR '')'') ''n1) )'') = '' )''" by code_simp
  have i: "input_port ''I0''" by code_simp
  have t: "trim ''n1'' = ''n1''" by code_simp
  have r: "port_step ''.I0(n1) )'' 1 \<lparr>inst = ''u'', nets = [], used = False\<rparr> =
        Inr (False, drop 1 (dropWhile (\<lambda>x. x \<noteq> CHR '')'') ''n1) )''), 1,
          \<lparr>inst = ''u'', nets = [''n1''], used = False\<rparr>)
      \<and> (input_port ''I0'' \<and> trim ''n1'' \<noteq> []
            \<longrightarrow> trim ''n1'' \<in> set (nets \<lparr>inst = ''u'', nets = [''n1''], used = False\<rparr>))"
    using port_filter_spec [of "''.I0(n1) )''" "''I0(n1) )''" "''I0''" "''(n1) )''" "''n1) )''"
        "''n1''" "\<lparr>inst = ''u'', nets = [''n1''], used = False\<rparr>"
        "\<lparr>inst = ''u'', nets = [], used = False\<rparr>" 1] h1 h2 h3 h4 h5
    by blast
  have a: "port_step ''.I0(n1) )'' 1 \<lparr>inst = ''u'', nets = [], used = False\<rparr>
     = Inr (False, '' )'', 1, \<lparr>inst = ''u'', nets = [''n1''], used = False\<rparr>)"
    using r by (simp only: d)
  have b: "''n1'' \<in> set (nets \<lparr>inst = ''u'', nets = [''n1''], used = False\<rparr>)"
    using r i t by simp
  have z1: "skip_spaces ''.Z(n1) )'' = CHR ''.'' # ''Z(n1) )''" by code_simp
  have z2: "parse_identifier ''Z(n1) )'' = Some (''Z'', ''(n1) )'')" by code_simp
  have z5: "\<lparr>inst = ''u'', nets = [], used = False\<rparr>
      = (if input_port ''Z''
         then lut_add_net_unique \<lparr>inst = ''u'', nets = [], used = False\<rparr> ''n1''
         else \<lparr>inst = ''u'', nets = [], used = False\<rparr>)"
    by code_simp
  have "port_step ''.Z(n1) )'' 1 \<lparr>inst = ''u'', nets = [], used = False\<rparr> =
        Inr (False, drop 1 (dropWhile (\<lambda>x. x \<noteq> CHR '')'') ''n1) )''), 1,
          \<lparr>inst = ''u'', nets = [], used = False\<rparr>)"
    using port_filter_spec [of "''.Z(n1) )''" "''Z(n1) )''" "''Z''" "''(n1) )''" "''n1) )''"
        "''n1''" "\<lparr>inst = ''u'', nets = [], used = False\<rparr>"
        "\<lparr>inst = ''u'', nets = [], used = False\<rparr>" 1] z1 z2 h3 h4 z5
    by blast
  then have c: "port_step ''.Z(n1) )'' 1 \<lparr>inst = ''u'', nets = [], used = False\<rparr>
     = Inr (False, '' )'', 1, \<lparr>inst = ''u'', nets = [], used = False\<rparr>)"
    by (simp only: d)
  show ?thesis using a b c by blast
qed

section \<open>Duplicate-free, trimmed inputs\<close>

text \<open>
  Claim C8. Every Lut that the extraction returns has no net twice among its inputs.
  \<open>lut_add_net_unique\<close> inserts the net with the white space around it removed: a net
  that is then empty or is among the inputs already leaves the Lut as it is, any other
  one is put behind the inputs that are there, which keep their order.
\<close>

theorem inputs_duplicate_free_trimmed:
  "(parse_luts_from_buffer buf = Inr luts \<longrightarrow> (\<forall>l \<in> set luts. distinct (nets l)))
   \<and> lut_add_net_unique l net =
       (if trim net = [] \<or> trim net \<in> set (nets l) then l
        else l\<lparr>nets := nets l @ [trim net]\<rparr>)"
proof -
  have "\<forall>l \<in> set luts. distinct (nets l)" if "parse_luts_from_buffer buf = Inr luts"
    using that parse_loop_keeps [of _ "[]" luts "\<lambda>l. distinct (nets l)"]
    by (simp add: parse_luts_from_buffer_def lut_add_net_unique_distinct)
  then show ?thesis using lut_add_net_unique_char [of l net] by blast
qed

theorem inputs_duplicate_free_trimmed_witness:
  "parse_luts_from_buffer ''GTP_LUT6 u ( .I0(a), .I1( a ), .I2(b) );''
     = Inr [\<lparr>inst = ''u'', nets = [''a'', ''b''], used = False\<rparr>]
   \<and> distinct (nets \<lparr>inst = ''u'', nets = [''a'', ''b''], used = False\<rparr>)"
proof -
  have p: "parse_luts_from_buffer ''GTP_LUT6 u ( .I0(a), .I1( a ), .I2(b) );''
     = Inr [\<lparr>inst = ''u'', nets = [''a'', ''b''], used = False\<rparr>]"
    by code_simp
  then have "\<forall>l \<in> set [\<lparr>inst = ''u'', nets = [''a'', ''b''], used = False\<rparr>]. distinct (nets l)"
    using inputs_duplicate_free_trimmed [of "''GTP_LUT6 u ( .I0(a), .I1( a ), .I2(b) );''"
       "[\<lparr>inst = ''u'', nets = [''a'', ''b''], used = False\<rparr>]"]
    by blast
  then have "distinct (nets \<lparr>inst = ''u'', nets = [''a'', ''b''], used = False\<rparr>)"
    by (simp only: list.set ball_simps)
  then show ?thesis using p by (simp only: simp_thms)
qed

section \<open>Malformed instantiations\<close>

text \<open>
  Claim C6, which fails as it is stated: an instantiation whose port list is cut off by the
  end of the text is stored like any other. Here the text ends behind \<open>.I0(a)\<close>, and the
  extraction returns the instance \<open>u\<close> with the input \<open>a\<close>.
\<close>

theorem truncated_port_list_yields_instance:
  "parse_luts_from_buffer ''GTP_LUT6 u ( .I0(a)''
     = Inr [\<lparr>inst = ''u'', nets = [''a''], used = False\<rparr>]"
  by code_simp

text \<open>
  Claim C6 as amended. Behind a cell name that qualifies, a missing instance name, or a
  missing opening parenthesis behind the name, makes the pass store no Lut and report no
  error, and the scan goes on at the cursor: behind the cell name in the first case, behind
  the white space that follows the instance name in the second. Once the port list is open
  and the port loop returns, the pass stores the Lut of the loop, also when the text ended
  before the list was closed, and the scan goes on behind the resynchronisation.
\<close>

theorem malformed_instantiation_policy:
  "(parse_identifier p = Some (cell, p1) \<and> is_gtp_lut_cell cell \<and> parse_identifier p1 = None
      \<longrightarrow> scan_step p = Inr (p1, None) \<and> parse_loop p acc = parse_loop p1 acc)
   \<and> (parse_identifier p = Some (cell, p1) \<and> is_gtp_lut_cell cell
        \<and> parse_identifier p1 = Some (name, p2)
        \<and> (skip_spaces p2 = [] \<or> hd (skip_spaces p2) \<noteq> CHR ''('')
      \<longrightarrow> scan_step p = Inr (skip_spaces p2, None)
          \<and> parse_loop p acc = parse_loop (skip_spaces p2) acc)
   \<and> (parse_identifier p = Some (cell, p1) \<and> is_gtp_lut_cell cell
        \<and> parse_identifier p1 = Some (name, p2) \<and> skip_spaces p2 = CHR ''('' # p3
        \<and> port_loop p3 1 \<lparr>inst = name, nets = [], used = False\<rparr> = Inr (p4, depth, lut)
      \<longrightarrow> scan_step p = Inr (resync p4, Some lut)
          \<and> parse_loop p acc = parse_loop (resync p4) (acc @ [lut]))"
proof -
  have a: "scan_step p = Inr (p1, None)"
    if "parse_identifier p = Some (cell, p1)" "is_gtp_lut_cell cell" "parse_identifier p1 = None"
    using that by (simp add: scan_step_def)
  have b: "scan_step p = Inr (skip_spaces p2, None)"
    if "parse_identifier p = Some (cell, p1)" "is_gtp_lut_cell cell"
      "parse_identifier p1 = Some (name, p2)"
      "skip_spaces p2 = [] \<or> hd (skip_spaces p2) \<noteq> CHR ''(''"
    using that by (cases "skip_spaces p2") (auto simp: scan_step_def)
  have c: "scan_step p = Inr (resync p4, Some lut)"
    if "parse_identifier p = Some (cell, p1)" "is_gtp_lut_cell cell"
      "parse_identifier p1 = Some (name, p2)" "skip_spaces p2 = CHR ''('' # p3"
      "port_loop p3 1 \<lparr>inst = name, nets = [], used = False\<rparr> = Inr (p4, depth, lut)"
    using that by (simp add: scan_step_def)
  have ne: "p \<noteq> []" if "parse_identifier p = Some (cell, p1)"
    using that parse_identifier_nonempty by blast
  show ?thesis
    using a b c ne by (auto simp: parse_loop_unfold)
qed

theorem malformed_instantiation_policy_witness:
  "parse_loop ''GTP_LUT6 ;'' [] = parse_loop '' ;'' []
   \<and> parse_loop ''GTP_LUT6 u ;'' [] = parse_loop '';'' []
   \<and> scan_step ''GTP_LUT6 u ( .I0(a)''
       = Inr ([], Some \<lparr>inst = ''u'', nets = [''a''], used = False\<rparr>)"
proof -
  have c: "is_gtp_lut_cell ''GTP_LUT6''" by code_simp
  have a1: "parse_identifier ''GTP_LUT6 ;'' = Some (''GTP_LUT6'', '' ;'')" by code_simp
  have a2: "parse_identifier '' ;'' = None" by code_simp
  have b1: "parse_identifier ''GTP_LUT6 u ;'' = Some (''GTP_LUT6'', '' u ;'')" by code_simp
  have b2: "parse_identifier '' u ;'' = Some (''u'', '' ;'')" by code_simp
  have b3: "skip_spaces '' ;'' = '';''" by code_simp
  have c1: "parse_identifier ''GTP_LUT6 u ( .I0(a)'' = Some (''GTP_LUT6'', '' u ( .I0(a)'')"
    by code_simp
  have c2: "parse_identifier '' u ( .I0(a)'' = Some (''u'', '' ( .I0(a)'')" by code_simp
  have c3: "skip_spaces '' ( .I0(a)'' = CHR ''('' # '' .I0(a)''" by code_simp
  have c4: "port_loop '' .I0(a)'' 1 \<lparr>inst = ''u'', nets = [], used = False\<rparr>
     = Inr ([], 1, \<lparr>inst = ''u'', nets = [''a''], used = False\<rparr>)"
    by code_simp
  have c5: "resync [] = []" by code_simp
  have "parse_loop ''GTP_LUT6 ;'' [] = parse_loop '' ;'' []"
    using malformed_instantiation_policy [of "''GTP_LUT6 ;''" "''GTP_LUT6''" "'' ;''" "[]"]
      c a1 a2
    by blast
  moreover have "parse_loop ''GTP_LUT6 u ;'' [] = parse_loop '';'' []"
    using malformed_instantiation_policy [of "''GTP_LUT6 u ;''" "''GTP_LUT6''" "'' u ;''" "[]"
        "''u''" "'' ;''"] c b1 b2 b3
    by simp
  moreover have "scan_step ''GTP_LUT6 u ( .I0(a)''
      = Inr ([], Some \<lparr>inst = ''u'', nets = [''a''], used = False\<rparr>)"
    using malformed_instantiation_policy [of "''GTP_LUT6 u ( .I0(a)''" "''GTP_LUT6''"
        "'' u ( .I0(a)''" "[]" "''u''" "'' ( .I0(a)''" "'' .I0(a)''" "[]" 1
        "\<lparr>inst = ''u'', nets = [''a''], used = False\<rparr>"] c c1 c2 c3 c4 c5
    by simp
  ultimately show ?thesis by blast
qed

section \<open>Nested parentheses in a port list\<close>

text \<open>
  Claim C7, at the input of the claim. The depth is 2 behind the inner opening parenthesis;
  the closing parenthesis behind \<open>.I0(a)\<close> takes it to 1 and leaves the loop by \<open>break\<close>,
  with the depth still above 0 and \<open>.I1(b) )\<close> unread: the instance has the input \<open>a\<close> only.
\<close>

theorem nested_port_list_ends_at_first_close:
  "port_loop '' ( .I0(a) ) .I1(b) )'' 1 \<lparr>inst = ''u'', nets = [], used = False\<rparr>
     = Inr ('' .I1(b) )'', 1, \<lparr>inst = ''u'', nets = [''a''], used = False\<rparr>)
   \<and> parse_luts_from_buffer ''GTP_LUT6 u ( ( .I0(a) ) .I1(b) )''
     = Inr [\<lparr>inst = ''u'', nets = [''a''], used = False\<rparr>]"
  by code_simp

section \<open>Termination of the extraction\<close>

text \<open>
  Claim C10, at a text that ends in white space inside an open port list: a blank behind
  the opening parenthesis, or a line feed behind the first binding. Behind the white space
  the port loop finds the terminator, which is neither parenthesis nor a dot, and steps
  over it: the next read is outside the buffer. The passes of the outer loop and of the
  port loop that do return move the cursor forward (\<open>scan_step_length\<close>,
  \<open>port_step_length\<close>), but this pass does not return.
\<close>

theorem port_loop_overread_at_trailing_space:
  "parse_luts_from_buffer ''GTP_LUT6 u ( '' = Inl Buffer_overread
   \<and> parse_luts_from_buffer (''GTP_LUT6 u ( .I0(a),'' @ [CHR 0x0A]) = Inl Buffer_overread
   \<and> port_step '' '' 1 \<lparr>inst = ''u'', nets = [], used = False\<rparr> = Inl Buffer_overread"
  by code_simp

section \<open>The end-to-end scenario\<close>

text \<open>
  Claim C1. On the three lines of the scenario the extraction returns the instances
  \<open>u1\<close> with the inputs a, b, c, then \<open>u2\<close> with c, d, then \<open>u3\<close> with m, n, o, p, q, r.
  The union of the inputs of \<open>u1\<close> and \<open>u2\<close> has 4 members, the union-size predicate holds
  of them, and the pairing returns the one pair of \<open>u1\<close> and \<open>u2\<close> and leaves \<open>u3\<close>
  unconsumed. The report is the line \<open>1\<close> followed by the line \<open>u1 u2\<close>, with or
  without the line feed that ends the third line of the text.
\<close>

theorem end_to_end_scenario:
  "parse_luts_from_buffer scenario_text
     = Inr [\<lparr>inst = ''u1'', nets = [''a'', ''b'', ''c''], used = False\<rparr>,
            \<lparr>inst = ''u2'', nets = [''c'', ''d''], used = False\<rparr>,
            \<lparr>inst = ''u3'', nets = [''m'', ''n'', ''o'', ''p'', ''q'', ''r''], used = False\<rparr>]
   \<and> card (set [''a'', ''b'', ''c''] \<union> set [''c'', ''d'']) = 4
   \<and> union_unique_count_le6 \<lparr>inst = ''u1'', nets = [''a'', ''b'', ''c''], used = False\<rparr>
        \<lparr>inst = ''u2'', nets = [''c'', ''d''], used = False\<rparr>
   \<and> pair_luts [\<lparr>inst = ''u1'', nets = [''a'', ''b'', ''c''], used = False\<rparr>,
            \<lparr>inst = ''u2'', nets = [''c'', ''d''], used = False\<rparr>,
            \<lparr>inst = ''u3'', nets = [''m'', ''n'', ''o'', ''p'', ''q'', ''r''], used = False\<rparr>]
     = ([\<lparr>inst = ''u1'', nets = [''a'', ''b'', ''c''], used = True\<rparr>,
         \<lparr>inst = ''u2'', nets = [''c'', ''d''], used = True\<rparr>,
         \<lparr>inst = ''u3'', nets = [''m'', ''n'', ''o'', ''p'', ''q'', ''r''], used = False\<rparr>],
        [(0, 1)])
   \<and> run_one scenario_text = Inr (''1'' @ [CHR 0x0A] @ ''u1 u2'' @ [CHR 0x0A])
   \<and> run_one (butlast scenario_text) = Inr (''1'' @ [CHR 0x0A] @ ''u1 u2'' @ [CHR 0x0A])"
  by code_simp

section \<open>First-fit greedy pairing\<close>

text \<open>
  Claim C2. The pairing is run on instances none of which is consumed, as the extraction
  returns them. Then the pairs come out in the order of their first elements. Every pair
  \<open>(a, b)\<close> that comes out was made when the loop arrived at \<open>a\<close>: \<open>a\<close> was not consumed
  then, and \<open>b\<close> is the first instance behind \<open>a\<close> that was not consumed then and satisfies
  the union-size predicate with \<open>a\<close>. Every instance \<open>i\<close> that is not consumed when the loop
  arrives at it is paired with the first such instance, if there is one; if there is none,
  \<open>i\<close> is in no pair of the result. The instances that are marked consumed at the end are
  the members of the pairs.
\<close>

theorem greedy_first_fit:
  assumes "\<forall>l \<in> set luts. \<not> used l" and "pair_luts luts = (luts', ps)"
  shows "sorted_wrt (<) (map fst ps)
     \<and> (\<forall>(a, b) \<in> set ps. a \<notin> set (consumed_before ps a) \<and> first_candidate luts ps a b)
     \<and> (\<forall>i < length luts. i \<notin> set (consumed_before ps i) \<longrightarrow>
          (\<forall>j. first_candidate luts ps i j \<longrightarrow> (i, j) \<in> set ps))
     \<and> (\<forall>i < length luts.
          i \<notin> set (consumed_before ps i) \<and> (\<forall>j. \<not> candidate luts ps i j) \<longrightarrow>
          i \<notin> set (pair_members ps))
     \<and> (\<forall>k < length luts. used (luts' ! k) \<longleftrightarrow> k \<in> set (pair_members ps))"
  using pair_luts_inv [OF assms] unfolding pair_inv_def by blast

theorem greedy_first_fit_witness:
  "pair_luts example_luts = (example_paired, [(0, 2), (1, 3)])
   \<and> sorted_wrt (<) (map fst [(0 :: nat, 2 :: nat), (1, 3)])
   \<and> first_candidate example_luts [(0, 2), (1, 3)] 0 2
   \<and> first_candidate example_luts [(0, 2), (1, 3)] 1 3
   \<and> 4 \<notin> set (pair_members [(0, 2), (1, 3)])
   \<and> used (example_paired ! 2) \<and> \<not> used (example_paired ! 4)"
proof -
  note t = greedy_first_fit [OF example_unused example_pairing]
  have s: "sorted_wrt (<) (map fst [(0 :: nat, 2 :: nat), (1, 3)])" using t by blast
  have f: "\<forall>(a, b) \<in> set [(0 :: nat, 2 :: nat), (1, 3)].
      first_candidate example_luts [(0, 2), (1, 3)] a b"
    using t by blast
  have f1: "first_candidate example_luts [(0, 2), (1, 3)] 0 2" using f by simp
  have f2: "first_candidate example_luts [(0, 2), (1, 3)] 1 3" using f by simp
  have l: "(4 :: nat) < length example_luts" by (simp add: example_luts_def)
  have c: "(4 :: nat) \<notin> set (consumed_before [(0, 2), (1, 3)] 4)"
    by (simp add: consumed_before_def pair_members_def)
  have n: "\<forall>j. \<not> candidate example_luts [(0, 2), (1, 3)] 4 j"
    by (auto simp: candidate_def example_luts_def)
  have g3: "\<forall>i < length example_luts. i \<notin> set (consumed_before [(0, 2), (1, 3)] i)
        \<and> (\<forall>j. \<not> candidate example_luts [(0, 2), (1, 3)] i j)
      \<longrightarrow> i \<notin> set (pair_members [(0, 2), (1, 3)])"
    using t by blast
  have m: "4 \<notin> set (pair_members [(0, 2), (1, 3)])" using g3 l c n by blast
  have g5: "\<forall>k < length example_luts. used (example_paired ! k)
      \<longleftrightarrow> k \<in> set (pair_members [(0, 2), (1, 3)])"
    using t by blast
  have u2: "used (example_paired ! 2)"
    using g5 by (simp add: example_luts_def pair_members_def)
  have u4: "\<not> used (example_paired ! 4)"
    using g5 l m by blast
  show ?thesis using example_pairing s f1 f2 m u2 u4 by blast
qed

section \<open>The union-size predicate\<close>

text \<open>
  Claim C3. For every pair that the pairing returns, whatever list of instances it is run
  on, the inputs of its two instances have at most 6 distinct nets between them. The count of \<open>union_unique_count_le6\<close>, which starts
  at the number of inputs of \<open>a\<close>, goes up for every input of \<open>b\<close> that is not an input of
  \<open>a\<close> and gives up above 6, answers true exactly when the union of the inputs has at most
  6 members: for any two Luts whose inputs are free of duplicates, so for any two
  instances that the extraction returns.
\<close>

theorem union_size_predicate:
  "(pair_luts luts = (luts', ps) \<longrightarrow>
      (\<forall>(a, b) \<in> set ps. a < b \<and> b < length luts
          \<and> card (set (nets (luts ! a)) \<union> set (nets (luts ! b))) \<le> 6))
   \<and> (distinct (nets a) \<and> distinct (nets b) \<longrightarrow>
        (union_unique_count_le6 a b \<longleftrightarrow> card (set (nets a) \<union> set (nets b)) \<le> 6))
   \<and> (parse_luts_from_buffer buf = Inr xs \<and> a \<in> set xs \<and> b \<in> set xs \<longrightarrow>
        (union_unique_count_le6 a b \<longleftrightarrow> card (set (nets a) \<union> set (nets b)) \<le> 6))"
proof -
  have p3: "union_unique_count_le6 a b \<longleftrightarrow> card (set (nets a) \<union> set (nets b)) \<le> 6"
    if "parse_luts_from_buffer buf = Inr xs" "a \<in> set xs" "b \<in> set xs"
    using parse_unused [OF that(1)] that(2,3) union_le6_card by blast
  show ?thesis using pair_luts_le6 [of luts luts' ps] p3 union_le6_card by blast
qed

theorem union_size_predicate_witness:
  "card (set (nets (example_luts ! 0)) \<union> set (nets (example_luts ! 2))) \<le> 6
   \<and> union_unique_count_le6 (example_luts ! 0) (example_luts ! 2)
   \<and> \<not> union_unique_count_le6 (example_luts ! 0) (example_luts ! 1)"
proof -
  have "\<forall>(a, b) \<in> set [(0 :: nat, 2 :: nat), (1, 3)]. a < b \<and> b < length example_luts
      \<and> card (set (nets (example_luts ! a)) \<union> set (nets (example_luts ! b))) \<le> 6"
    using union_size_predicate [of example_luts example_paired "[(0, 2), (1, 3)]"]
      example_pairing
    by blast
  then have c: "card (set (nets (example_luts ! 0)) \<union> set (nets (example_luts ! 2))) \<le> 6"
    by simp
  have d: "distinct (nets (example_luts ! 0))" "distinct (nets (example_luts ! 1))"
    "distinct (nets (example_luts ! 2))"
    by (simp_all add: example_luts_def)
  have "union_unique_count_le6 (example_luts ! 0) (example_luts ! 2)
      \<longleftrightarrow> card (set (nets (example_luts ! 0)) \<union> set (nets (example_luts ! 2))) \<le> 6"
    using union_size_predicate [of "[]" "[]" "[]" "example_luts ! 0" "example_luts ! 2"] d
    by blast
  then have y: "union_unique_count_le6 (example_luts ! 0) (example_luts ! 2)" using c by simp
  have "card (set (nets (example_luts ! 0)) \<union> set (nets (example_luts ! 1))) = 7"
    by code_simp
  moreover have "union_unique_count_le6 (example_luts ! 0) (example_luts ! 1)
      \<longleftrightarrow> card (set (nets (example_luts ! 0)) \<union> set (nets (example_luts ! 1))) \<le> 6"
    using union_size_predicate [of "[]" "[]" "[]" "example_luts ! 0" "example_luts ! 1"] d
    by blast
  ultimately have "\<not> union_unique_count_le6 (example_luts ! 0) (example_luts ! 1)" by simp
  then show ?thesis using c y by blast
qed

section \<open>Membership in pairs\<close>

text \<open>
  Claim C9. When the pairing is run on instances none of which is consumed, both members
  of every pair of its result are marked consumed, no instance occurs twice among the
  members of the pairs, and the number of instances marked consumed is twice the number of
  pairs. In any state, a pass of the outer loop that appends a pair marks two different
  instances, neither of which was marked before: so no instance is marked twice.
\<close>

theorem pair_membership:
  "((\<forall>l \<in> set luts. \<not> used l) \<and> pair_luts luts = (luts', ps) \<longrightarrow>
      (\<forall>(a, b) \<in> set ps. a < length luts' \<and> b < length luts'
          \<and> used (luts' ! a) \<and> used (luts' ! b))
      \<and> distinct (pair_members ps)
      \<and> length (filter used luts') = 2 * length ps)
   \<and> (pair_step n xs qs i = (ys, qs @ [(c, d)]) \<longrightarrow>
        c = i \<and> i < d \<and> d < n \<and> \<not> used (xs ! i) \<and> \<not> used (xs ! d))"
proof -
  have g: "(\<forall>(a, b) \<in> set ps. a < length luts' \<and> b < length luts'
          \<and> used (luts' ! a) \<and> used (luts' ! b))
      \<and> distinct (pair_members ps)
      \<and> length (filter used luts') = 2 * length ps"
    if h: "\<forall>l \<in> set luts. \<not> used l" "pair_luts luts = (luts', ps)"
  proof -
    note inv = pair_luts_inv [OF h]
    have len: "length luts' = length luts" using inv by (simp add: pair_inv_def)
    have u: "\<forall>k < length luts'. used (luts' ! k) \<longleftrightarrow> k \<in> set (pair_members ps)"
      using inv len by (simp add: pair_inv_def)
    have b: "\<forall>(a, b) \<in> set ps. a < b \<and> b < length luts'"
      using inv len unfolding pair_inv_def by auto
    have d: "distinct (pair_members ps)" using inv by (simp add: pair_inv_def)
    have m: "\<forall>k \<in> set (pair_members ps). k < length luts'"
      using b by (fastforce simp: set_pair_members)
    have "length (filter used luts') = length (pair_members ps)"
      using u d m by (rule used_count)
    then have c: "length (filter used luts') = 2 * length ps"
      by (simp add: length_pair_members)
    have "a < length luts' \<and> b < length luts' \<and> used (luts' ! a) \<and> used (luts' ! b)"
      if "(a, b) \<in> set ps" for a b
    proof -
      have "a \<in> set (pair_members ps)" "b \<in> set (pair_members ps)"
        using that by (auto simp: set_pair_members)
      then show ?thesis using m u by simp
    qed
    then show ?thesis using d c by auto
  qed
  show ?thesis using g pair_step_marks_unmarked [of n xs qs i ys c d] by blast
qed

theorem pair_membership_witness:
  "pair_luts example_luts = (example_paired, [(0, 2), (1, 3)])
   \<and> used (example_paired ! 0) \<and> used (example_paired ! 2)
   \<and> distinct (pair_members [(0, 2), (1, 3)])
   \<and> length (filter used example_paired) = 2 * length [(0 :: nat, 2 :: nat), (1, 3)]
   \<and> \<not> used (example_luts ! 0) \<and> \<not> used (example_luts ! 2)"
proof -
  have t: "(\<forall>(a, b) \<in> set [(0 :: nat, 2 :: nat), (1, 3)].
          a < length example_paired \<and> b < length example_paired
          \<and> used (example_paired ! a) \<and> used (example_paired ! b))
      \<and> distinct (pair_members [(0, 2), (1, 3)])
      \<and> length (filter used example_paired) = 2 * length [(0 :: nat, 2 :: nat), (1, 3)]"
    using pair_membership [of example_luts example_paired "[(0, 2), (1, 3)]"]
      example_unused example_pairing
    by blast
  then have u: "used (example_paired ! 0) \<and> used (example_paired ! 2)" by simp
  have "pair_step 5 example_luts [] 0 =
      (example_luts[0 := (example_luts ! 0)\<lparr>used := True\<rparr>,
                    2 := (example_luts ! 2)\<lparr>used := True\<rparr>], [] @ [(0, 2)])"
    by code_simp
  then have "\<not> used (example_luts ! 0) \<and> \<not> used (example_luts ! 2)"
    using pair_membership [of "[]" "[]" "[]" 5 example_luts "[]" 0 _ 0 2] by blast
  then show ?thesis using t u example_pairing by blast
qed

end
